theory Spec2Isabelle
  imports Main
begin

section \<open>Python values, exceptions and list indexing\<close>

text \<open>
  The program is \<^verbatim>\<open>vclock.py\<close>. An exception that nothing catches ends the thread that
  raised it; \<^verbatim>\<open>exit()\<close> raises \<^verbatim>\<open>SystemExit\<close>, which also ends only the thread that called it
  when that thread is not the main thread.
\<close>

datatype error = TypeError | IndexError | ValueError | StopIteration | SystemExit

text \<open>
  \<^verbatim>\<open>xs[i]\<close> on a list of length \<open>n\<close>: a negative index counts from the end, an index outside
  \<open>-n .. n-1\<close> raises \<^verbatim>\<open>IndexError\<close> (here \<open>None\<close>).
\<close>

definition py_index :: "nat \<Rightarrow> int \<Rightarrow> nat option" where
  "py_index n i =
     (if 0 \<le> i then (if i < int n then Some (nat i) else None)
      else (if - int n \<le> i then Some (nat (int n + i)) else None))"

section \<open>The store of list objects\<close>

text \<open>
  A \<^verbatim>\<open>VectorClock\<close> holds a reference to a Python list that is mutated in place, and clocks
  are handed from one thread to another inside messages. The lists therefore live in an
  explicit store: an address is a position in the store, and allocation appends.
\<close>

type_synonym addr = nat
type_synonym store = "int list list"

record VectorClock =
  vc_clock :: addr
  vc_id :: "int option"

text \<open>\<^verbatim>\<open>VectorClock.__init__(id, n)\<close>: a new list \<^verbatim>\<open>[0] * n\<close>.\<close>

definition VectorClock_init :: "store \<Rightarrow> int option \<Rightarrow> nat \<Rightarrow> store \<times> VectorClock" where
  "VectorClock_init h i n = (h @ [replicate n 0], \<lparr>vc_clock = length h, vc_id = i\<rparr>)"

text \<open>
  The mutators return the exception raised, if any, together with the store as they
  leave it. \<^verbatim>\<open>inc\<close>: \<^verbatim>\<open>self.clock[self.id] += 1\<close>; an id of \<^verbatim>\<open>None\<close> is a \<^verbatim>\<open>TypeError\<close>.
\<close>

definition inc :: "store \<Rightarrow> VectorClock \<Rightarrow> error option \<times> store" where
  "inc h self =
     (case vc_id self of
        None \<Rightarrow> (Some TypeError, h)
      | Some i \<Rightarrow>
          (case py_index (length (h ! vc_clock self)) i of
             None \<Rightarrow> (Some IndexError, h)
           | Some k \<Rightarrow>
               (None, h[vc_clock self := (h ! vc_clock self)[k := h ! vc_clock self ! k + 1]])))"

text \<open>
  \<^verbatim>\<open>merge\<close>: the loop over \<^verbatim>\<open>range(0, len(self.clock))\<close> reads both lists from the store at
  every index, so that a shorter \<^verbatim>\<open>other\<close> raises \<^verbatim>\<open>IndexError\<close> at its first missing slot,
  after the earlier slots have been written.
\<close>

fun merge_loop :: "store \<Rightarrow> VectorClock \<Rightarrow> VectorClock \<Rightarrow> nat list \<Rightarrow> error option \<times> store" where
  "merge_loop h self other [] = (None, h)"
| "merge_loop h self other (i # is) =
     (if i < length (h ! vc_clock other)
      then merge_loop
             (h[vc_clock self :=
                  (h ! vc_clock self)[i := max (h ! vc_clock self ! i) (h ! vc_clock other ! i)]])
             self other is
      else (Some IndexError, h))"

definition merge :: "store \<Rightarrow> VectorClock \<Rightarrow> VectorClock \<Rightarrow> error option \<times> store" where
  "merge h self other =
     (case merge_loop h self other [0..<length (h ! vc_clock self)] of
        (Some e, h') \<Rightarrow> (Some e, h')
      | (None, h') \<Rightarrow> inc h' self)"

text \<open>\<^verbatim>\<open>copy\<close>: a new clock with id \<^verbatim>\<open>None\<close>, filled slot by slot.\<close>

fun copy_loop :: "store \<Rightarrow> VectorClock \<Rightarrow> VectorClock \<Rightarrow> nat list \<Rightarrow> store" where
  "copy_loop h self new_clock [] = h"
| "copy_loop h self new_clock (i # is) =
     copy_loop
       (h[vc_clock new_clock := (h ! vc_clock new_clock)[i := h ! vc_clock self ! i]])
       self new_clock is"

definition copy :: "store \<Rightarrow> VectorClock \<Rightarrow> store \<times> VectorClock" where
  "copy h self =
     (let (h1, new_clock) = VectorClock_init h None (length (h ! vc_clock self))
      in (copy_loop h1 self new_clock [0..<length (h1 ! vc_clock self)], new_clock))"

section \<open>Messages, events and nodes\<close>

record Message =
  msg_event_id :: int
  msg_clock :: VectorClock

text \<open>Fields an event type does not use hold \<^verbatim>\<open>None\<close>.\<close>

record Event =
  ev_event_id :: int
  ev_type :: string
  ev_receiver :: "int option"
  ev_dependency :: "int option"

text \<open>
  Where a thread stands: \<open>Ready\<close> at the head of the \<^verbatim>\<open>for\<close> loop of \<^verbatim>\<open>run\<close>, \<open>InWait\<close> inside
  the \<^verbatim>\<open>while\<close> loop of \<^verbatim>\<open>wait_on_dependency\<close> (about to call \<^verbatim>\<open>get\<close> again), \<open>Stopped\<close>
  after an exception.
\<close>

datatype thread_state = Ready | InWait | Stopped error

text \<open>
  \<open>node_events\<close> is the part of \<^verbatim>\<open>self.events\<close> the \<^verbatim>\<open>for\<close> loop has not finished: its head
  is the event being executed. \<open>node_received\<close> is a history variable that the source
  does not have: every message \<^verbatim>\<open>get\<close> has returned to this node, oldest first. No
  step reads it; it is there to state what a node has received. The fields carry the
  name of their class in front, since \<^verbatim>\<open>clock\<close>, \<^verbatim>\<open>id\<close> and \<^verbatim>\<open>event_id\<close> are fields of
  several classes.
\<close>

record Node =
  node_id :: int
  node_clock :: VectorClock
  node_events :: "Event list"
  node_buffer :: "int list"
  node_pc :: thread_state
  node_received :: "Message list"

text \<open>
  What the threads share: the store, the list of queues (every node's \<^verbatim>\<open>self.queues\<close> and
  the global \<^verbatim>\<open>queues\<close> are the same list) and the console. A line printed by \<^verbatim>\<open>log\<close> is kept
  as the node id, the event id and the values of the clock at that moment.
\<close>

datatype line = LogLine int int "int list" | InvalidEventLine

record System =
  sys_store :: store
  sys_queues :: "Message list list"
  sys_stdout :: "line list"
  sys_nodes :: "Node list"

definition Node_init :: "int \<Rightarrow> VectorClock \<Rightarrow> Event list \<Rightarrow> Node" where
  "Node_init i c evs =
     \<lparr>node_id = i, node_clock = c, node_events = evs, node_buffer = [],
      node_pc = Ready, node_received = []\<rparr>"

definition log :: "System \<Rightarrow> Node \<Rightarrow> int \<Rightarrow> System" where
  "log s self event_id =
     s\<lparr>sys_stdout := sys_stdout s @
          [LogLine (node_id self) event_id (sys_store s ! vc_clock (node_clock self))]\<rparr>"

text \<open>
  \<^verbatim>\<open>buffered\<close>: \<^verbatim>\<open>self.buffer.index(event_id) > -1\<close>, and \<^verbatim>\<open>False\<close> when \<^verbatim>\<open>index\<close> raises because
  the id is not in the list.
\<close>

definition buffered :: "Node \<Rightarrow> int option \<Rightarrow> bool" where
  "buffered self event_id =
     (case event_id of None \<Rightarrow> False | Some d \<Rightarrow> d \<in> set (node_buffer self))"

definition buf_event_id :: "Node \<Rightarrow> int \<Rightarrow> Node" where
  "buf_event_id self event_id = self\<lparr>node_buffer := node_buffer self @ [event_id]\<rparr>"

text \<open>
  The end of every branch of \<^verbatim>\<open>run\<close>: \<^verbatim>\<open>self.log(ev.event_id)\<close>, \<^verbatim>\<open>self.clock.inc()\<close>, and on to
  the next event.
\<close>

definition log_inc :: "System \<Rightarrow> Node \<Rightarrow> Event \<Rightarrow> System \<times> Node" where
  "log_inc s self ev =
     (let s1 = log s self (ev_event_id ev);
          (e, h) = inc (sys_store s1) (node_clock self)
      in (s1\<lparr>sys_store := h\<rparr>,
          (case e of
             None \<Rightarrow> self\<lparr>node_events := tl (node_events self), node_pc := Ready\<rparr>
           | Some x \<Rightarrow> self\<lparr>node_pc := Stopped x\<rparr>)))"

text \<open>
  One \<^verbatim>\<open>get\<close> of \<^verbatim>\<open>wait_on_dependency\<close> with the \<^verbatim>\<open>merge\<close> that follows it. \<^verbatim>\<open>get\<close> on an empty
  queue blocks: the thread has no step (\<open>None\<close>). A message with another id is buffered and
  the thread stays in the loop; the awaited one ends \<^verbatim>\<open>wait_on_dependency\<close>, and \<^verbatim>\<open>run\<close> logs
  and increments.
\<close>

definition receive_step :: "System \<Rightarrow> Node \<Rightarrow> Event \<Rightarrow> (System \<times> Node) option" where
  "receive_step s self event =
     (case py_index (length (sys_queues s)) (node_id self) of
        None \<Rightarrow> Some (s, self\<lparr>node_pc := Stopped IndexError\<rparr>)
      | Some k \<Rightarrow>
          (case sys_queues s ! k of
             [] \<Rightarrow> None
           | msg # rest \<Rightarrow>
               (let self1 = self\<lparr>node_received := node_received self @ [msg]\<rparr>;
                    (e, h) = merge (sys_store s) (node_clock self) (msg_clock msg);
                    s1 = s\<lparr>sys_store := h, sys_queues := (sys_queues s)[k := rest]\<rparr>
                in (case e of
                      Some x \<Rightarrow> Some (s1, self1\<lparr>node_pc := Stopped x\<rparr>)
                    | None \<Rightarrow>
                        if Some (msg_event_id msg) \<noteq> ev_dependency event
                        then Some (s1, (buf_event_id self1 (msg_event_id msg))\<lparr>node_pc := InWait\<rparr>)
                        else Some (log_inc s1 self1 event)))))"

text \<open>
  The \<^verbatim>\<open>'s'\<close> branch of \<^verbatim>\<open>run\<close>: \<^verbatim>\<open>queues[ev.receiver]\<close> is evaluated first, then the message
  is built from a copy of the clock and put at the end of that queue.
\<close>

definition send_step :: "System \<Rightarrow> Node \<Rightarrow> Event \<Rightarrow> System \<times> Node" where
  "send_step s self ev =
     (case ev_receiver ev of
        None \<Rightarrow> (s, self\<lparr>node_pc := Stopped TypeError\<rparr>)
      | Some r \<Rightarrow>
          (case py_index (length (sys_queues s)) r of
             None \<Rightarrow> (s, self\<lparr>node_pc := Stopped IndexError\<rparr>)
           | Some k \<Rightarrow>
               (let (h, c) = copy (sys_store s) (node_clock self);
                    msg = \<lparr>msg_event_id = ev_event_id ev, msg_clock = c\<rparr>;
                    s1 = s\<lparr>sys_store := h,
                           sys_queues := (sys_queues s)[k := sys_queues s ! k @ [msg]]\<rparr>
                in log_inc s1 self ev)))"

text \<open>
  One step of a node's thread: the next event of \<^verbatim>\<open>run\<close>, or the next \<^verbatim>\<open>get\<close> of a receive
  event that is still waiting. \<open>None\<close>: the thread cannot move (its script is finished, it
  has stopped, or it is blocked on its empty queue).
\<close>

definition thread_step :: "System \<Rightarrow> Node \<Rightarrow> (System \<times> Node) option" where
  "thread_step s self =
     (case node_pc self of
        Stopped e \<Rightarrow> None
      | InWait \<Rightarrow>
          (case node_events self of [] \<Rightarrow> None | ev # evs \<Rightarrow> receive_step s self ev)
      | Ready \<Rightarrow>
          (case node_events self of
             [] \<Rightarrow> None
           | ev # evs \<Rightarrow>
               if ev_type ev = ''i'' then Some (log_inc s self ev)
               else if ev_type ev = ''r'' then
                 (if buffered self (ev_dependency ev) then Some (log_inc s self ev)
                  else receive_step s self ev)
               else if ev_type ev = ''s'' then Some (send_step s self ev)
               else Some (s\<lparr>sys_stdout := sys_stdout s @ [InvalidEventLine]\<rparr>,
                          self\<lparr>node_pc := Stopped SystemExit\<rparr>)))"

section \<open>The simulation\<close>

text \<open>
  The scheduler lets thread \<open>i\<close> take its next step. The threads share only the
  queues (and the console): a clock list is written by its own node alone and a copy
  carried by a message is only read. A step is therefore taken as a whole; a finer
  interleaving of two threads changes the order of their lines on the console and of
  their allocations in the store, and nothing else.
\<close>

definition sys_step :: "nat \<Rightarrow> System \<Rightarrow> System option" where
  "sys_step i s =
     (if i < length (sys_nodes s)
      then (case thread_step s (sys_nodes s ! i) of
              None \<Rightarrow> None
            | Some (s', nd) \<Rightarrow> Some (s'\<lparr>sys_nodes := (sys_nodes s)[i := nd]\<rparr>))
      else None)"

text \<open>A schedule names the thread that moves at each step; it is refused where that thread cannot move.\<close>

fun exec :: "nat list \<Rightarrow> System \<Rightarrow> System option" where
  "exec [] s = Some s"
| "exec (i # sched) s = (case sys_step i s of None \<Rightarrow> None | Some s' \<Rightarrow> exec sched s')"

text \<open>
  The main program: \<open>n\<close> empty queues, then node \<open>i\<close> with a fresh clock of \<open>n\<close> zeros and the
  events \<open>fr i\<close> that \<^verbatim>\<open>FileReader.events(i)\<close> returns.
\<close>

fun make_nodes :: "store \<Rightarrow> nat \<Rightarrow> (nat \<Rightarrow> Event list) \<Rightarrow> nat list \<Rightarrow> store \<times> Node list" where
  "make_nodes h n fr [] = (h, [])"
| "make_nodes h n fr (i # is) =
     (let (h1, c) = VectorClock_init h (Some (int i)) n;
          (h2, nds) = make_nodes h1 n fr is
      in (h2, Node_init (int i) c (fr i) # nds))"

definition main :: "nat \<Rightarrow> (nat \<Rightarrow> Event list) \<Rightarrow> System" where
  "main n fr =
     (let (h, nds) = make_nodes [] n fr [0..<n]
      in \<lparr>sys_store = h, sys_queues = replicate n [], sys_stdout = [], sys_nodes = nds\<rparr>)"


definition Send :: "int \<Rightarrow> int \<Rightarrow> Event" where
  "Send e r = \<lparr>ev_event_id = e, ev_type = ''s'', ev_receiver = Some r, ev_dependency = None\<rparr>"

definition Receive :: "int \<Rightarrow> int \<Rightarrow> Event" where
  "Receive e d = \<lparr>ev_event_id = e, ev_type = ''r'', ev_receiver = None, ev_dependency = Some d\<rparr>"

text \<open>The values of a node's clock, and whether every script has run to its end.\<close>

definition clock_of :: "System \<Rightarrow> nat \<Rightarrow> int list" where
  "clock_of s i = sys_store s ! vc_clock (node_clock (sys_nodes s ! i))"

definition finished :: "System \<Rightarrow> bool" where
  "finished s = list_all (\<lambda>nd. node_events nd = [] \<and> node_pc nd = Ready) (sys_nodes s)"

text \<open>
  Operations applied later to a clock: \<^verbatim>\<open>inc()\<close> or \<^verbatim>\<open>merge(other)\<close>, each leaving the store for
  the next one.
\<close>

datatype clock_op = Inc | Merge VectorClock

fun apply_ops :: "store \<Rightarrow> VectorClock \<Rightarrow> clock_op list \<Rightarrow> store" where
  "apply_ops h c [] = h"
| "apply_ops h c (Inc # ops) = apply_ops (snd (inc h c)) c ops"
| "apply_ops h c (Merge other # ops) = apply_ops (snd (merge h c other)) c ops"

text \<open>
  A script in which node 1 waits for event 3 first, so that the message of event 1 is
  buffered, and then has two receive events that both name event 1.
\<close>

definition script_buffer_reuse :: "nat \<Rightarrow> Event list" where
  "script_buffer_reuse i =
     (if i = 0 then [Send 1 1, Send 3 1] else [Receive 2 3, Receive 4 1, Receive 5 1])"

text \<open>A script in which node 0 sends two messages with the same event id before the awaited one.\<close>

definition script_duplicate_id :: "nat \<Rightarrow> Event list" where
  "script_duplicate_id i = (if i = 0 then [Send 1 1, Send 1 1, Send 3 1] else [Receive 2 3])"

text \<open>Two one-node scripts: a send addressed to the sender, and a send to a node that does not exist.\<close>

definition script_self_send :: "nat \<Rightarrow> Event list" where
  "script_self_send i = [Send 1 0]"

definition script_send_nowhere :: "nat \<Rightarrow> Event list" where
  "script_send_nowhere i = [Send 1 5]"

text \<open>The two-node scenario: node 0 sends event 1 to node 1, node 1 receives it as event 2.\<close>

definition script_two_nodes :: "nat \<Rightarrow> Event list" where
  "script_two_nodes i = (if i = 0 then [Send 1 1] else [Receive 2 1])"


section \<open>Reading the input file\<close>






text \<open>
  A file is the list of rows that \<^verbatim>\<open>csv.reader\<close> yields, each row a list of strings.
  \<^verbatim>\<open>FileReader.validate\<close> prints a message and calls \<^verbatim>\<open>exit()\<close> on a row that is too short; here
  in the main thread, where \<^verbatim>\<open>SystemExit\<close> ends the program.
\<close>

definition validate :: "string list \<Rightarrow> nat \<Rightarrow> error option" where
  "validate row n = (if length row < n then Some SystemExit else None)"

text \<open>\<^verbatim>\<open>FileReader.nodes\<close>: the first row must read \<^verbatim>\<open>n,X\<close>.\<close>

definition nodes :: "(string \<Rightarrow> int option) \<Rightarrow> string list list \<Rightarrow> error + int" where
  "nodes pyint rows =
     (case rows of
        [] \<Rightarrow> Inl StopIteration
      | n # rest \<Rightarrow>
          (case n of
             [] \<Rightarrow> Inl IndexError
           | t # fs \<Rightarrow>
               if t = ''n'' then
                 (case validate n 2 of
                    Some e \<Rightarrow> Inl e
                  | None \<Rightarrow> (case pyint (n ! 1) of None \<Rightarrow> Inl ValueError | Some v \<Rightarrow> Inr v))
               else Inl SystemExit))"

text \<open>
  \<^verbatim>\<open>FileReader.events(id)\<close>: the rows before the header \<^verbatim>\<open>#,id\<close> are passed over; after it,
  every row that does not start with \<^verbatim>\<open>#\<close> is looked at, and the first one that does ends
  the loop. A row of type \<^verbatim>\<open>i\<close>, \<^verbatim>\<open>s\<close> or \<^verbatim>\<open>r\<close> becomes an event; a row of any other type
  meets no branch and the loop goes on to the next row.
\<close>

fun events_loop ::
  "(string \<Rightarrow> int option) \<Rightarrow> int \<Rightarrow> bool \<Rightarrow> Event list \<Rightarrow> string list list \<Rightarrow> error + Event list"
where
  "events_loop pyint ident found events [] = Inr events"
| "events_loop pyint ident found events (line # rest) =
     (case line of
        [] \<Rightarrow> Inl IndexError
      | t # fs \<Rightarrow>
          if \<not> found then
            (if t = ''#'' then
               (case fs of
                  [] \<Rightarrow> Inl IndexError
                | f # gs \<Rightarrow>
                    (case pyint f of
                       None \<Rightarrow> Inl ValueError
                     | Some v \<Rightarrow> events_loop pyint ident (v = ident) events rest))
             else events_loop pyint ident False events rest)
          else if t \<noteq> ''#'' then
            (if t = ''i'' then
               (case validate line 2 of
                  Some e \<Rightarrow> Inl e
                | None \<Rightarrow>
                    (case pyint (line ! 1) of
                       None \<Rightarrow> Inl ValueError
                     | Some e \<Rightarrow>
                         events_loop pyint ident True
                           (events @ [\<lparr>ev_event_id = e, ev_type = ''i'', ev_receiver = None,
                                       ev_dependency = None\<rparr>]) rest))
             else if t = ''s'' then
               (case validate line 3 of
                  Some e \<Rightarrow> Inl e
                | None \<Rightarrow>
                    (case pyint (line ! 1) of
                       None \<Rightarrow> Inl ValueError
                     | Some e \<Rightarrow>
                         (case pyint (line ! 2) of
                            None \<Rightarrow> Inl ValueError
                          | Some r \<Rightarrow>
                              events_loop pyint ident True
                                (events @ [\<lparr>ev_event_id = e, ev_type = ''s'',
                                            ev_receiver = Some r, ev_dependency = None\<rparr>]) rest)))
             else if t = ''r'' then
               (case validate line 3 of
                  Some e \<Rightarrow> Inl e
                | None \<Rightarrow>
                    (case pyint (line ! 1) of
                       None \<Rightarrow> Inl ValueError
                     | Some e \<Rightarrow>
                         (case pyint (line ! 2) of
                            None \<Rightarrow> Inl ValueError
                          | Some d \<Rightarrow>
                              events_loop pyint ident True
                                (events @ [\<lparr>ev_event_id = e, ev_type = ''r'',
                                            ev_receiver = None, ev_dependency = Some d\<rparr>]) rest)))
             else events_loop pyint ident True events rest)
          else Inr events)"

definition events :: "(string \<Rightarrow> int option) \<Rightarrow> string list list \<Rightarrow> int \<Rightarrow> error + Event list" where
  "events pyint rows ident = events_loop pyint ident False [] rows"






section \<open>What the main program sets up\<close>

text \<open>
  The layout that \<open>main\<close> builds and every step keeps: \<open>n\<close> nodes and \<open>n\<close> queues; the
  clock list of node \<open>i\<close> at address \<open>i\<close>, owned by \<open>i\<close>; every list of the store of length
  \<open>n\<close>; the clock of every queued message at an address from \<open>n\<close> on, where the copies are
  allocated.
\<close>

definition shape :: "nat \<Rightarrow> System \<Rightarrow> bool" where
  "shape n s \<longleftrightarrow>
     length (sys_nodes s) = n \<and> length (sys_queues s) = n \<and> n \<le> length (sys_store s)
     \<and> (\<forall>c<length (sys_store s). length (sys_store s ! c) = n)
     \<and> (\<forall>i<n. node_id (sys_nodes s ! i) = int i
             \<and> node_clock (sys_nodes s ! i) = \<lparr>vc_clock = i, vc_id = Some (int i)\<rparr>)
     \<and> (\<forall>k<n. \<forall>m\<in>set (sys_queues s ! k).
            n \<le> vc_clock (msg_clock m) \<and> vc_clock (msg_clock m) < length (sys_store s))"

text \<open>
  Three more facts that hold in every state of a run. No list of the store holds, for a
  node \<open>j\<close>, a value above the own slot of \<open>j\<close> (only \<open>j\<close> raises slot \<open>j\<close>, everything else
  is a copy or a maximum).
\<close>

definition own_max :: "nat \<Rightarrow> System \<Rightarrow> bool" where
  "own_max n s \<longleftrightarrow> (\<forall>c<length (sys_store s). \<forall>j<n. sys_store s ! c ! j \<le> sys_store s ! j ! j)"

text \<open>
  The own slot of a node counts the events of its script that it has finished plus the
  messages it has dequeued.
\<close>

definition counted :: "nat \<Rightarrow> (nat \<Rightarrow> Event list) \<Rightarrow> System \<Rightarrow> bool" where
  "counted n fr s \<longleftrightarrow>
     (\<forall>i<n. sys_store s ! i ! i + int (length (node_events (sys_nodes s ! i)))
             = int (length (fr i)) + int (length (node_received (sys_nodes s ! i))))"

text \<open>
  The clock of a node is, slot by slot, at least the clock of every message the node has
  dequeued, and every id in its buffer is the id of a message it has dequeued.
\<close>

definition dominated :: "nat \<Rightarrow> System \<Rightarrow> bool" where
  "dominated n s \<longleftrightarrow>
     (\<forall>i<n. (\<forall>m\<in>set (node_received (sys_nodes s ! i)).
                n \<le> vc_clock (msg_clock m) \<and> vc_clock (msg_clock m) < length (sys_store s)
                \<and> (\<forall>j<n. sys_store s ! vc_clock (msg_clock m) ! j \<le> sys_store s ! i ! j))
            \<and> set (node_buffer (sys_nodes s ! i))
                \<subseteq> msg_event_id ` set (node_received (sys_nodes s ! i)))"

section \<open>Properties of the clock operations\<close>

lemma py_index_less: "py_index n i = Some k \<Longrightarrow> k < n"
  by (auto simp: py_index_def split: if_splits)

lemma merge_loop_cells:
  assumes "vc_clock self \<noteq> vc_clock other" "vc_clock self < length h"
    and "\<forall>i\<in>set is. i < length (h ! vc_clock self) \<and> i < length (h ! vc_clock other)"
  shows "merge_loop h self other is =
           (None, h[vc_clock self :=
              map (\<lambda>j. if j \<in> set is then max (h ! vc_clock self ! j) (h ! vc_clock other ! j)
                       else h ! vc_clock self ! j) [0..<length (h ! vc_clock self)]])"
  using assms
proof (induction "is" arbitrary: h)
  case Nil
  have "map (\<lambda>j. h ! vc_clock self ! j) [0..<length (h ! vc_clock self)] = h ! vc_clock self"
    by (rule map_nth)
  then show ?case by simp
next
  case (Cons i "is")
  let ?a = "vc_clock self" and ?b = "vc_clock other"
  let ?xs = "h ! ?a" and ?ys = "h ! ?b"
  let ?h1 = "h[?a := ?xs[i := max (?xs ! i) (?ys ! i)]]"
  have i: "i < length ?xs" "i < length ?ys" using Cons.prems(3) by auto
  have h1a: "?h1 ! ?a = ?xs[i := max (?xs ! i) (?ys ! i)]" using Cons.prems(2) by simp
  have h1b: "?h1 ! ?b = ?ys" using Cons.prems(1) by simp
  have pre: "\<forall>j\<in>set is. j < length (?h1 ! ?a) \<and> j < length (?h1 ! ?b)"
    using Cons.prems(3) h1a h1b by simp
  have len: "?a < length ?h1" using Cons.prems(2) by simp
  have "merge_loop h self other (i # is) = merge_loop ?h1 self other is"
    using i by simp
  also have "\<dots> = (None, ?h1[?a := map (\<lambda>j. if j \<in> set is then max (?h1 ! ?a ! j) (?h1 ! ?b ! j)
                       else ?h1 ! ?a ! j) [0..<length (?h1 ! ?a)]])"
    by (rule Cons.IH [OF Cons.prems(1) len pre])
  also have "?h1[?a := map (\<lambda>j. if j \<in> set is then max (?h1 ! ?a ! j) (?h1 ! ?b ! j)
                       else ?h1 ! ?a ! j) [0..<length (?h1 ! ?a)]]
           = h[?a := map (\<lambda>j. if j \<in> set (i # is) then max (?xs ! j) (?ys ! j) else ?xs ! j)
                       [0..<length ?xs]]"
    unfolding h1a h1b using i by (auto simp: nth_list_update intro!: arg_cong [where f = "list_update h ?a"])
  finally show ?case .
qed

lemma copy_loop_cells:
  assumes "vc_clock self \<noteq> vc_clock new_clock" "vc_clock new_clock < length h"
    and "\<forall>i\<in>set is. i < length (h ! vc_clock new_clock)"
  shows "copy_loop h self new_clock is =
           h[vc_clock new_clock :=
              map (\<lambda>j. if j \<in> set is then h ! vc_clock self ! j else h ! vc_clock new_clock ! j)
                [0..<length (h ! vc_clock new_clock)]]"
  using assms
proof (induction "is" arbitrary: h)
  case Nil
  have "map (\<lambda>j. h ! vc_clock new_clock ! j) [0..<length (h ! vc_clock new_clock)] = h ! vc_clock new_clock"
    by (rule map_nth)
  then show ?case by simp
next
  case (Cons i "is")
  let ?a = "vc_clock self" and ?b = "vc_clock new_clock"
  let ?xs = "h ! ?a" and ?ys = "h ! ?b"
  let ?h1 = "h[?b := ?ys[i := ?xs ! i]]"
  have h1b: "?h1 ! ?b = ?ys[i := ?xs ! i]" using Cons.prems(2) by simp
  have h1a: "?h1 ! ?a = ?xs" using Cons.prems(1) by simp
  have pre: "\<forall>j\<in>set is. j < length (?h1 ! ?b)"
    using Cons.prems(3) h1b by simp
  have len: "?b < length ?h1" using Cons.prems(2) by simp
  have "copy_loop h self new_clock (i # is) = copy_loop ?h1 self new_clock is"
    by simp
  also have "\<dots> = ?h1[?b := map (\<lambda>j. if j \<in> set is then ?h1 ! ?a ! j else ?h1 ! ?b ! j)
                 [0..<length (?h1 ! ?b)]]"
    by (rule Cons.IH [OF Cons.prems(1) len pre])
  also have "\<dots> = h[?b := map (\<lambda>j. if j \<in> set (i # is) then ?xs ! j else ?ys ! j) [0..<length ?ys]]"
    unfolding h1a h1b using Cons.prems(3) by (auto simp: nth_list_update intro!: arg_cong [where f = "list_update h ?b"])
  finally show ?case .
qed

lemma copy_eq:
  assumes "vc_clock self < length h"
  shows "copy h self = (h @ [h ! vc_clock self], \<lparr>vc_clock = length h, vc_id = None\<rparr>)"
proof -
  let ?a = "vc_clock self"
  let ?n = "length (h ! ?a)"
  let ?h1 = "h @ [replicate ?n 0]"
  let ?new = "\<lparr>vc_clock = length h, vc_id = None\<rparr>"
  have a: "?h1 ! ?a = h ! ?a" using assms by (simp add: nth_append)
  have b: "?h1 ! length h = replicate ?n 0" by simp
  have "copy_loop ?h1 self ?new [0..<?n] =
          ?h1[vc_clock ?new := map (\<lambda>j. if j \<in> set [0..<?n] then ?h1 ! ?a ! j else ?h1 ! vc_clock ?new ! j)
                [0..<length (?h1 ! vc_clock ?new)]]"
    using assms by (intro copy_loop_cells) auto
  also have "\<dots> = ?h1[length h := map (\<lambda>j. h ! ?a ! j) [0..<?n]]"
    unfolding VectorClock.simps a b by (simp cong: map_cong)
  also have "\<dots> = h @ [h ! ?a]"
    by (simp add: map_nth)
  finally show ?thesis
    by (simp add: copy_def VectorClock_init_def a)
qed


lemma inc_eq:
  assumes "vc_id self = Some i" "py_index (length (h ! vc_clock self)) i = Some k"
  shows "inc h self = (None, h[vc_clock self := (h ! vc_clock self)[k := h ! vc_clock self ! k + 1]])"
  using assms by (simp add: inc_def)

lemma map2_max_nth:
  "length xs = length ys \<Longrightarrow> map (\<lambda>j. max (xs ! j) (ys ! j)) [0..<length xs] = map2 max xs ys"
  by (rule nth_equalityI) auto

lemma merge_loop_all:
  assumes "vc_clock self \<noteq> vc_clock other" "vc_clock self < length h"
    and "length (h ! vc_clock self) = length (h ! vc_clock other)"
  shows "merge_loop h self other [0..<length (h ! vc_clock self)] =
           (None, h[vc_clock self := map2 max (h ! vc_clock self) (h ! vc_clock other)])"
proof -
  let ?xs = "h ! vc_clock self" and ?ys = "h ! vc_clock other"
  have "merge_loop h self other [0..<length ?xs] =
          (None, h[vc_clock self :=
              map (\<lambda>j. if j \<in> set [0..<length ?xs] then max (?xs ! j) (?ys ! j) else ?xs ! j)
                [0..<length ?xs]])"
    using assms by (intro merge_loop_cells) auto
  also have "map (\<lambda>j. if j \<in> set [0..<length ?xs] then max (?xs ! j) (?ys ! j) else ?xs ! j)
                [0..<length ?xs] = map (\<lambda>j. max (?xs ! j) (?ys ! j)) [0..<length ?xs]"
    by (rule map_cong) auto
  also have "\<dots> = map2 max ?xs ?ys"
    using assms(3) by (rule map2_max_nth)
  finally show ?thesis .
qed

lemma merge_eq:
  assumes "vc_clock self \<noteq> vc_clock other"
    and "vc_clock self < length h" and "vc_clock other < length h"
    and "length (h ! vc_clock self) = N" and "length (h ! vc_clock other) = N"
    and "vc_id self = Some i" and "py_index N i = Some k"
  shows "merge h self other =
           (None, h[vc_clock self :=
                      (map2 max (h ! vc_clock self) (h ! vc_clock other))
                        [k := max (h ! vc_clock self ! k) (h ! vc_clock other ! k) + 1]])"
proof -
  let ?a = "vc_clock self" and ?b = "vc_clock other"
  let ?m = "map2 max (h ! ?a) (h ! ?b)"
  let ?h1 = "h[?a := ?m]"
  have k: "k < N" using assms(7) by (rule py_index_less)
  have loop: "merge_loop h self other [0..<length (h ! ?a)] = (None, ?h1)"
    using assms by (intro merge_loop_all) auto
  have h1a: "?h1 ! ?a = ?m" using assms(2) by simp
  have lenm: "length ?m = N" using assms(4,5) by simp
  have mk: "?m ! k = max (h ! ?a ! k) (h ! ?b ! k)" using k assms(4,5) by simp
  have "py_index (length (?h1 ! ?a)) i = Some k"
    using assms(7) lenm h1a by simp
  with assms(6) have "inc ?h1 self = (None, ?h1[?a := (?h1 ! ?a)[k := ?h1 ! ?a ! k + 1]])"
    by (rule inc_eq)
  then have eq: "merge h self other = (None, h[?a := ?m[k := max (h ! ?a ! k) (h ! ?b ! k) + 1]])"
    unfolding merge_def loop h1a mk by simp
  show ?thesis
    by (rule eq)
qed

text \<open>
  Claim C5. For two clocks (two different list objects) of the same length \<open>N\<close>, where
  \<open>self\<close> has an own slot \<open>k\<close> (its id indexes the list), \<^verbatim>\<open>self.merge(other)\<close> returns normally,
  sets every slot of \<open>self\<close> to the maximum of the two values at that slot and then adds 1
  to the own slot; \<open>other\<close> is left as it was.
\<close>

theorem merge_max_then_inc:
  assumes "vc_clock self \<noteq> vc_clock other"
    and "vc_clock self < length h" and "vc_clock other < length h"
    and "length (h ! vc_clock self) = N" and "length (h ! vc_clock other) = N"
    and "vc_id self = Some i" and "py_index N i = Some k"
  shows "merge h self other =
           (None, h[vc_clock self :=
                      (map2 max (h ! vc_clock self) (h ! vc_clock other))
                        [k := max (h ! vc_clock self ! k) (h ! vc_clock other ! k) + 1]])
         \<and> snd (merge h self other) ! vc_clock other = h ! vc_clock other"
proof -
  note eq = merge_eq [OF assms]
  show ?thesis
    unfolding eq using assms(1) by simp
qed

theorem merge_max_then_inc_witness:
  "merge [[1, 5, 2], [3, 0, 2]] \<lparr>vc_clock = 0, vc_id = Some 0\<rparr> \<lparr>vc_clock = 1, vc_id = None\<rparr>
     = (None, [[4, 5, 2], [3, 0, 2]])"
  using merge_max_then_inc [of "\<lparr>vc_clock = 0, vc_id = Some 0\<rparr>" "\<lparr>vc_clock = 1, vc_id = None\<rparr>"
      "[[1, 5, 2], [3, 0, 2]]" 3 0 0]
  by (simp add: py_index_def)

lemma inc_frame: "c \<noteq> vc_clock self \<Longrightarrow> snd (inc h self) ! c = h ! c"
  by (simp add: inc_def split: option.splits)

lemma length_inc: "length (snd (inc h self)) = length h"
  by (simp add: inc_def split: option.splits)

lemma merge_loop_frame: "c \<noteq> vc_clock self \<Longrightarrow> snd (merge_loop h self other is) ! c = h ! c"
  by (induction "is" arbitrary: h) auto

lemma length_merge_loop: "length (snd (merge_loop h self other is)) = length h"
  by (induction "is" arbitrary: h) auto

lemma merge_frame: "c \<noteq> vc_clock self \<Longrightarrow> snd (merge h self other) ! c = h ! c"
proof -
  assume c: "c \<noteq> vc_clock self"
  obtain e h1 where l: "merge_loop h self other [0..<length (h ! vc_clock self)] = (e, h1)"
    by (cases "merge_loop h self other [0..<length (h ! vc_clock self)]")
  have h1: "h1 ! c = h ! c"
    using merge_loop_frame [OF c, of h other "[0..<length (h ! vc_clock self)]"] l by simp
  show ?thesis
    using h1 c by (cases e) (simp_all add: merge_def l inc_frame)
qed

lemma length_merge: "length (snd (merge h self other)) = length h"
proof -
  obtain e h1 where l: "merge_loop h self other [0..<length (h ! vc_clock self)] = (e, h1)"
    by (cases "merge_loop h self other [0..<length (h ! vc_clock self)]")
  have h1: "length h1 = length h"
    using length_merge_loop [of h self other "[0..<length (h ! vc_clock self)]"] l by simp
  show ?thesis
    using h1 by (cases e) (simp_all add: merge_def l length_inc)
qed

lemma apply_ops_frame: "c \<noteq> vc_clock self \<Longrightarrow> apply_ops h self ops ! c = h ! c"
proof (induction ops arbitrary: h)
  case Nil
  show ?case by simp
next
  case (Cons op ops)
  then show ?case by (cases op) (simp_all add: inc_frame merge_frame)
qed

text \<open>
  Claim C8. \<^verbatim>\<open>copy()\<close> returns a clock with id \<^verbatim>\<open>None\<close> whose list is a new object (its address
  is not one of the store before the call) holding the values the original has at the
  call; the original is not changed by the call, and whatever sequence of \<^verbatim>\<open>inc\<close> and
  \<^verbatim>\<open>merge\<close> calls is applied to the original afterwards, the copy keeps those values.
\<close>

theorem copy_detached:
  assumes "vc_clock self < length h" and "copy h self = (h', snap)"
  shows "vc_id snap = None \<and> vc_clock snap = length h \<and> length h' = Suc (length h)
         \<and> h' ! vc_clock snap = h ! vc_clock self
         \<and> h' ! vc_clock self = h ! vc_clock self
         \<and> (\<forall>ops. apply_ops h' self ops ! vc_clock snap = h ! vc_clock self)"
proof -
  have eq: "h' = h @ [h ! vc_clock self]" "snap = \<lparr>vc_clock = length h, vc_id = None\<rparr>"
    using assms copy_eq [OF assms(1)] by simp_all
  have ne: "vc_clock snap \<noteq> vc_clock self" using assms(1) eq(2) by simp
  have "apply_ops h' self ops ! vc_clock snap = h' ! vc_clock snap" for ops
    using ne by (rule apply_ops_frame)
  then show ?thesis
    using assms(1) unfolding eq by (simp add: nth_append)
qed

theorem copy_detached_witness:
  "copy [[3, 1]] \<lparr>vc_clock = 0, vc_id = Some 0\<rparr> = ([[3, 1], [3, 1]], \<lparr>vc_clock = 1, vc_id = None\<rparr>)
   \<and> apply_ops [[3, 1], [3, 1]] \<lparr>vc_clock = 0, vc_id = Some 0\<rparr>
        [Inc, Merge \<lparr>vc_clock = 1, vc_id = None\<rparr>, Inc] = [[6, 1], [3, 1]]
   \<and> apply_ops [[3, 1], [3, 1]] \<lparr>vc_clock = 0, vc_id = Some 0\<rparr>
        [Inc, Merge \<lparr>vc_clock = 1, vc_id = None\<rparr>, Inc] ! 1 = [3, 1]"
proof -
  have c: "copy [[3, 1]] \<lparr>vc_clock = 0, vc_id = Some 0\<rparr> = ([[3, 1], [3, 1]], \<lparr>vc_clock = 1, vc_id = None\<rparr>)"
    by code_simp
  have a: "apply_ops [[3, 1], [3, 1]] \<lparr>vc_clock = 0, vc_id = Some 0\<rparr>
        [Inc, Merge \<lparr>vc_clock = 1, vc_id = None\<rparr>, Inc] = [[6, 1], [3, 1]]"
    by code_simp
  have "\<forall>ops. apply_ops [[3, 1], [3, 1]] \<lparr>vc_clock = 0, vc_id = Some 0\<rparr> ops ! 1 = [3, 1]"
    using copy_detached [of "\<lparr>vc_clock = 0, vc_id = Some 0\<rparr>" "[[3, 1]]", OF _ c] by simp
  then have "apply_ops [[3, 1], [3, 1]] \<lparr>vc_clock = 0, vc_id = Some 0\<rparr>
        [Inc, Merge \<lparr>vc_clock = 1, vc_id = None\<rparr>, Inc] ! 1 = [3, 1]"
    by blast
  with c a show ?thesis by blast
qed

section \<open>Properties of a thread's steps\<close>

lemma log_inc_sys:
  "fst (log_inc s nd ev) =
     s\<lparr>sys_stdout := sys_stdout s @
          [LogLine (node_id nd) (ev_event_id ev) (sys_store s ! vc_clock (node_clock nd))],
       sys_store := snd (inc (sys_store s) (node_clock nd))\<rparr>"
  by (simp add: log_inc_def log_def Let_def split: prod.splits)

lemma log_inc_node:
  "snd (log_inc s nd ev) =
     (case fst (inc (sys_store s) (node_clock nd)) of
        None \<Rightarrow> nd\<lparr>node_events := tl (node_events nd), node_pc := Ready\<rparr>
      | Some x \<Rightarrow> nd\<lparr>node_pc := Stopped x\<rparr>)"
  by (simp add: log_inc_def log_def Let_def split: prod.splits)

lemma log_inc_node_fields:
  "node_buffer (snd (log_inc s nd ev)) = node_buffer nd"
  "node_received (snd (log_inc s nd ev)) = node_received nd"
  "node_clock (snd (log_inc s nd ev)) = node_clock nd"
  "node_id (snd (log_inc s nd ev)) = node_id nd"
  by (simp_all add: log_inc_node split: option.splits)

text \<open>
  Claim C9. A receive event that starts with its dependency id in the buffer takes one
  step: no queue changes and the node receives no message, so no merge happens; the line
  logged shows the clock as it was before the event; after the line the own slot is
  incremented once and the thread goes on to its next event.
\<close>

theorem buffered_receive_reads_nothing:
  assumes "node_pc nd = Ready" and "node_events nd = ev # evs" and "ev_type ev = ''r''"
    and "buffered nd (ev_dependency ev)"
    and "vc_clock (node_clock nd) < length (sys_store s)"
    and "vc_id (node_clock nd) = Some i"
    and "py_index (length (sys_store s ! vc_clock (node_clock nd))) i = Some k"
  shows "\<exists>s' nd'. thread_step s nd = Some (s', nd')
           \<and> sys_queues s' = sys_queues s
           \<and> node_received nd' = node_received nd
           \<and> sys_stdout s' = sys_stdout s @
                [LogLine (node_id nd) (ev_event_id ev) (sys_store s ! vc_clock (node_clock nd))]
           \<and> sys_store s' = (sys_store s)[vc_clock (node_clock nd) :=
                (sys_store s ! vc_clock (node_clock nd))
                  [k := sys_store s ! vc_clock (node_clock nd) ! k + 1]]
           \<and> node_events nd' = evs \<and> node_pc nd' = Ready"
proof -
  have step: "thread_step s nd = Some (log_inc s nd ev)"
    using assms(1-4) by (simp add: thread_step_def)
  have i: "inc (sys_store s) (node_clock nd) =
             (None, (sys_store s)[vc_clock (node_clock nd) :=
                (sys_store s ! vc_clock (node_clock nd))
                  [k := sys_store s ! vc_clock (node_clock nd) ! k + 1]])"
    using assms(6,7) by (simp add: inc_def)
  show ?thesis
    unfolding step
    by (intro exI [of _ "fst (log_inc s nd ev)"] exI [of _ "snd (log_inc s nd ev)"])
       (simp add: prod_eq_iff log_inc_sys log_inc_node i assms(2))
qed


theorem buffered_receive_reads_nothing_witness:
  "\<exists>s' nd'.
     thread_step
       \<lparr>sys_store = [[2, 0], [1, 4]], sys_queues = [[], []], sys_stdout = [], sys_nodes = []\<rparr>
       \<lparr>node_id = 1, node_clock = \<lparr>vc_clock = 1, vc_id = Some 1\<rparr>,
        node_events = [Receive 7 5], node_buffer = [5], node_pc = Ready, node_received = []\<rparr>
       = Some (s', nd')
     \<and> sys_queues s' = [[], []] \<and> node_received nd' = []
     \<and> sys_stdout s' = [LogLine 1 7 [1, 4]]
     \<and> sys_store s' = [[2, 0], [1, 5]]
     \<and> node_events nd' = [] \<and> node_pc nd' = Ready"
  using buffered_receive_reads_nothing
    [of "\<lparr>node_id = 1, node_clock = \<lparr>vc_clock = 1, vc_id = Some 1\<rparr>,
          node_events = [Receive 7 5], node_buffer = [5], node_pc = Ready, node_received = []\<rparr>"
        "Receive 7 5" "[]"
        "\<lparr>sys_store = [[2, 0], [1, 4]], sys_queues = [[], []], sys_stdout = [], sys_nodes = []\<rparr>"
        1 1]
  by (simp add: Receive_def buffered_def py_index_def)

text \<open>
  Claim C3, as stated, fails: the code never removes an id from the buffer. Node 0 sends
  events 1 and 3 to node 1; node 1 waits for 3, buffering 1 on the way, and then both of
  its receive events that name 1 are satisfied by that one buffered id. Node 1 has
  received two messages, has finished three receive events, and the id 1 is still in its
  buffer.
\<close>

theorem buffered_id_not_consumed:
  "exec [0, 0, 1, 1, 1, 1] (main 2 script_buffer_reuse) \<noteq> None
   \<and> finished (the (exec [0, 0, 1, 1, 1, 1] (main 2 script_buffer_reuse)))
   \<and> map msg_event_id
         (node_received (sys_nodes (the (exec [0, 0, 1, 1, 1, 1] (main 2 script_buffer_reuse))) ! 1))
       = [1, 3]
   \<and> node_buffer (sys_nodes (the (exec [0, 0, 1, 1, 1, 1] (main 2 script_buffer_reuse))) ! 1) = [1]
   \<and> sys_stdout (the (exec [0, 0, 1, 1, 1, 1] (main 2 script_buffer_reuse)))
       = [LogLine 0 1 [0, 0], LogLine 0 3 [1, 0], LogLine 1 2 [1, 2],
          LogLine 1 4 [1, 3], LogLine 1 5 [1, 4]]"
  by code_simp

text \<open>
  Claim C3, amended. When the dependency id of a receive event is in the buffer as the
  event starts, the step reads no queue, leaves the buffer as it is (the id stays in it
  and can satisfy later receive events too), and treats the dependency as satisfied: the
  event is logged at once and the thread does not wait.
\<close>

theorem buffered_dependency_kept:
  assumes "node_pc nd = Ready" and "node_events nd = ev # evs" and "ev_type ev = ''r''"
    and "buffered nd (ev_dependency ev)"
    and "thread_step s nd = Some (s', nd')"
  shows "sys_queues s' = sys_queues s
         \<and> node_buffer nd' = node_buffer nd
         \<and> buffered nd' (ev_dependency ev)
         \<and> sys_stdout s' = sys_stdout s @
              [LogLine (node_id nd) (ev_event_id ev) (sys_store s ! vc_clock (node_clock nd))]
         \<and> node_pc nd' \<noteq> InWait
         \<and> (node_pc nd' = Ready \<longrightarrow> node_events nd' = evs)"
proof -
  have step: "thread_step s nd = Some (log_inc s nd ev)"
    using assms(1-4) by (simp add: thread_step_def)
  with assms(5) have s': "s' = fst (log_inc s nd ev)" and nd': "nd' = snd (log_inc s nd ev)"
    by simp_all
  have b: "node_buffer nd' = node_buffer nd"
    unfolding nd' by (rule log_inc_node_fields)
  have "buffered nd' (ev_dependency ev)"
    using assms(4) b by (simp add: buffered_def split: option.splits)
  moreover have "node_pc nd' \<noteq> InWait" "node_pc nd' = Ready \<longrightarrow> node_events nd' = evs"
    unfolding nd' by (simp_all add: log_inc_node assms(2) split: option.splits)
  ultimately show ?thesis
    using b unfolding s' by (simp add: log_inc_sys)
qed

theorem buffered_dependency_kept_witness:
  "thread_step
     \<lparr>sys_store = [[1, 2]], sys_queues = [[]], sys_stdout = [], sys_nodes = []\<rparr>
     \<lparr>node_id = 0, node_clock = \<lparr>vc_clock = 0, vc_id = Some 0\<rparr>,
      node_events = [Receive 4 1, Receive 5 1], node_buffer = [1], node_pc = Ready,
      node_received = []\<rparr>
   = Some (\<lparr>sys_store = [[2, 2]], sys_queues = [[]], sys_stdout = [LogLine 0 4 [1, 2]],
            sys_nodes = []\<rparr>,
           \<lparr>node_id = 0, node_clock = \<lparr>vc_clock = 0, vc_id = Some 0\<rparr>,
            node_events = [Receive 5 1], node_buffer = [1], node_pc = Ready,
            node_received = []\<rparr>)
   \<and> buffered \<lparr>node_id = 0, node_clock = \<lparr>vc_clock = 0, vc_id = Some 0\<rparr>,
      node_events = [Receive 5 1], node_buffer = [1], node_pc = Ready,
      node_received = []\<rparr> (ev_dependency (Receive 4 1))"
proof -
  have step: "thread_step
     \<lparr>sys_store = [[1, 2]], sys_queues = [[]], sys_stdout = [], sys_nodes = []\<rparr>
     \<lparr>node_id = 0, node_clock = \<lparr>vc_clock = 0, vc_id = Some 0\<rparr>,
      node_events = [Receive 4 1, Receive 5 1], node_buffer = [1], node_pc = Ready,
      node_received = []\<rparr>
   = Some (\<lparr>sys_store = [[2, 2]], sys_queues = [[]], sys_stdout = [LogLine 0 4 [1, 2]],
            sys_nodes = []\<rparr>,
           \<lparr>node_id = 0, node_clock = \<lparr>vc_clock = 0, vc_id = Some 0\<rparr>,
            node_events = [Receive 5 1], node_buffer = [1], node_pc = Ready,
            node_received = []\<rparr>)"
    by code_simp
  show ?thesis
    using buffered_dependency_kept [OF _ _ _ _ step, of "Receive 4 1" "[Receive 5 1]"] step
    by (simp add: Receive_def buffered_def)
qed

subsection \<open>The cases of a step\<close>

lemma thread_step_cases [consumes 1, case_names local send recv invalid]:
  assumes "thread_step s nd = Some (s', nd')"
  obtains
    (local) ev evs where "node_pc nd = Ready" "node_events nd = ev # evs"
      "ev_type ev = ''i'' \<or> (ev_type ev = ''r'' \<and> buffered nd (ev_dependency ev))"
      "log_inc s nd ev = (s', nd')"
  | (send) ev evs where "node_pc nd = Ready" "node_events nd = ev # evs" "ev_type ev = ''s''"
      "send_step s nd ev = (s', nd')"
  | (recv) ev evs where "node_events nd = ev # evs"
      "node_pc nd = InWait \<or>
       (node_pc nd = Ready \<and> ev_type ev = ''r'' \<and> \<not> buffered nd (ev_dependency ev))"
      "receive_step s nd ev = Some (s', nd')"
  | (invalid) ev evs where "node_pc nd = Ready" "node_events nd = ev # evs"
      "ev_type ev \<noteq> ''i''" "ev_type ev \<noteq> ''r''" "ev_type ev \<noteq> ''s''"
      "s' = s\<lparr>sys_stdout := sys_stdout s @ [InvalidEventLine]\<rparr>"
      "nd' = nd\<lparr>node_pc := Stopped SystemExit\<rparr>"
proof (cases "node_pc nd")
  case Ready
  show ?thesis
  proof (cases "node_events nd")
    case Nil
    with Ready assms show ?thesis by (simp add: thread_step_def)
  next
    case (Cons ev evs)
    with Ready assms show ?thesis
      by (auto simp: thread_step_def split: if_splits intro: local send recv invalid)
  qed
next
  case InWait
  show ?thesis
  proof (cases "node_events nd")
    case Nil
    with InWait assms show ?thesis by (simp add: thread_step_def)
  next
    case (Cons ev evs)
    with InWait assms show ?thesis
      by (auto simp: thread_step_def intro: recv)
  qed
next
  case (Stopped e)
  with assms show ?thesis by (simp add: thread_step_def)
qed

lemma send_step_cases [case_names raise sent]:
  obtains
    (raise) e where "send_step s nd ev = (s, nd\<lparr>node_pc := Stopped e\<rparr>)"
  | (sent) r k where "ev_receiver ev = Some r" "py_index (length (sys_queues s)) r = Some k"
      "send_step s nd ev =
         log_inc (s\<lparr>sys_store := fst (copy (sys_store s) (node_clock nd)),
                    sys_queues := (sys_queues s)[k := sys_queues s ! k @
                      [\<lparr>msg_event_id = ev_event_id ev,
                        msg_clock = snd (copy (sys_store s) (node_clock nd))\<rparr>]]\<rparr>) nd ev"
proof (cases "ev_receiver ev")
  case None
  then show ?thesis by (auto simp: send_step_def intro: raise)
next
  case (Some r)
  show ?thesis
  proof (cases "py_index (length (sys_queues s)) r")
    case None
    with Some show ?thesis by (auto simp: send_step_def intro: raise)
  next
    case (Some k)
    with \<open>ev_receiver ev = Some r\<close> show ?thesis
      by (intro sent [of r k]) (simp_all add: send_step_def Let_def split: prod.splits)
  qed
qed

lemma receive_step_cases [consumes 1, case_names noqueue raise other match]:
  assumes "receive_step s nd ev = Some (s', nd')"
  obtains
    (noqueue) "py_index (length (sys_queues s)) (node_id nd) = None"
      "s' = s" "nd' = nd\<lparr>node_pc := Stopped IndexError\<rparr>"
  | (raise) k msg rest x where "py_index (length (sys_queues s)) (node_id nd) = Some k"
      "sys_queues s ! k = msg # rest"
      "fst (merge (sys_store s) (node_clock nd) (msg_clock msg)) = Some x"
      "s' = s\<lparr>sys_store := snd (merge (sys_store s) (node_clock nd) (msg_clock msg)),
              sys_queues := (sys_queues s)[k := rest]\<rparr>"
      "nd' = nd\<lparr>node_received := node_received nd @ [msg], node_pc := Stopped x\<rparr>"
  | (other) k msg rest where "py_index (length (sys_queues s)) (node_id nd) = Some k"
      "sys_queues s ! k = msg # rest"
      "fst (merge (sys_store s) (node_clock nd) (msg_clock msg)) = None"
      "Some (msg_event_id msg) \<noteq> ev_dependency ev"
      "s' = s\<lparr>sys_store := snd (merge (sys_store s) (node_clock nd) (msg_clock msg)),
              sys_queues := (sys_queues s)[k := rest]\<rparr>"
      "nd' = nd\<lparr>node_received := node_received nd @ [msg],
                node_buffer := node_buffer nd @ [msg_event_id msg], node_pc := InWait\<rparr>"
  | (match) k msg rest where "py_index (length (sys_queues s)) (node_id nd) = Some k"
      "sys_queues s ! k = msg # rest"
      "fst (merge (sys_store s) (node_clock nd) (msg_clock msg)) = None"
      "Some (msg_event_id msg) = ev_dependency ev"
      "log_inc (s\<lparr>sys_store := snd (merge (sys_store s) (node_clock nd) (msg_clock msg)),
                  sys_queues := (sys_queues s)[k := rest]\<rparr>)
               (nd\<lparr>node_received := node_received nd @ [msg]\<rparr>) ev = (s', nd')"
proof (cases "py_index (length (sys_queues s)) (node_id nd)")
  case None
  with assms show ?thesis by (auto simp: receive_step_def intro: noqueue)
next
  case (Some k)
  show ?thesis
  proof (cases "sys_queues s ! k")
    case Nil
    with Some assms show ?thesis by (simp add: receive_step_def)
  next
    case (Cons msg rest)
    obtain e h where m: "merge (sys_store s) (node_clock nd) (msg_clock msg) = (e, h)"
      by (cases "merge (sys_store s) (node_clock nd) (msg_clock msg)")
    show ?thesis
    proof (cases e)
      case None
      show ?thesis
      proof (cases "Some (msg_event_id msg) = ev_dependency ev")
        case True
        with None m Cons Some assms show ?thesis
          by (intro match [of k msg rest]) (simp_all add: receive_step_def)
      next
        case False
        with None m Cons Some assms show ?thesis
          by (intro other [of k msg rest]) (auto simp: receive_step_def buf_event_id_def)
      qed
    next
      case (Some x)
      with m Cons \<open>py_index (length (sys_queues s)) (node_id nd) = Some k\<close> assms show ?thesis
        by (intro raise [of k msg rest x]) (auto simp: receive_step_def)
    qed
  qed
qed

subsection \<open>The receive buffer\<close>

lemma thread_step_buffer:
  assumes "thread_step s nd = Some (s', nd')"
  shows "node_buffer nd' = node_buffer nd \<or> (\<exists>x. node_buffer nd' = node_buffer nd @ [x])"
  using assms
proof (cases rule: thread_step_cases)
  case (local ev evs)
  from local(4) have "nd' = snd (log_inc s nd ev)" by simp
  then show ?thesis by (simp add: log_inc_node_fields)
next
  case (send ev evs)
  show ?thesis
  proof (cases rule: send_step_cases [where s = s and nd = nd and ev = ev])
    case (raise e)
    with send(4) have "nd' = nd\<lparr>node_pc := Stopped e\<rparr>" by simp
    then show ?thesis by simp
  next
    case (sent r k)
    with send(4) have "nd' = snd (log_inc (s\<lparr>sys_store := fst (copy (sys_store s) (node_clock nd)),
                    sys_queues := (sys_queues s)[k := sys_queues s ! k @
                      [\<lparr>msg_event_id = ev_event_id ev,
                        msg_clock = snd (copy (sys_store s) (node_clock nd))\<rparr>]]\<rparr>) nd ev)"
      by simp
    then show ?thesis by (simp add: log_inc_node_fields)
  qed
next
  case (recv ev evs)
  from recv(3) show ?thesis
  proof (cases rule: receive_step_cases)
    case (match k msg rest)
    from match(5) have "nd' = snd (log_inc (s\<lparr>sys_store := snd (merge (sys_store s) (node_clock nd) (msg_clock msg)),
                  sys_queues := (sys_queues s)[k := rest]\<rparr>)
               (nd\<lparr>node_received := node_received nd @ [msg]\<rparr>) ev)"
      by simp
    then show ?thesis by (simp add: log_inc_node_fields)
  qed simp_all
next
  case (invalid ev evs)
  then show ?thesis by simp
qed

lemma sys_step_nodes:
  assumes "sys_step j s = Some s'"
  shows "j < length (sys_nodes s) \<and>
         (\<exists>s1 nd. thread_step s (sys_nodes s ! j) = Some (s1, nd) \<and>
                  s' = s1\<lparr>sys_nodes := (sys_nodes s)[j := nd]\<rparr>)"
  using assms by (auto simp: sys_step_def split: if_splits option.splits)

lemma sys_step_buffer:
  assumes "sys_step j s = Some s'" and "i < length (sys_nodes s)"
  shows "node_buffer (sys_nodes s' ! i) = node_buffer (sys_nodes s ! i)
         \<or> (\<exists>x. node_buffer (sys_nodes s' ! i) = node_buffer (sys_nodes s ! i) @ [x])"
proof -
  from sys_step_nodes [OF assms(1)] obtain s1 nd where
    j: "j < length (sys_nodes s)" and t: "thread_step s (sys_nodes s ! j) = Some (s1, nd)"
    and s': "s' = s1\<lparr>sys_nodes := (sys_nodes s)[j := nd]\<rparr>"
    by blast
  show ?thesis
  proof (cases "i = j")
    case True
    with thread_step_buffer [OF t] j show ?thesis by (simp add: s')
  next
    case False
    then show ?thesis by (simp add: s')
  qed
qed

lemma sys_step_length_nodes: "sys_step j s = Some s' \<Longrightarrow> length (sys_nodes s') = length (sys_nodes s)"
  by (auto dest!: sys_step_nodes)

lemma exec_length_nodes: "exec sched s = Some s' \<Longrightarrow> length (sys_nodes s') = length (sys_nodes s)"
proof (induction sched arbitrary: s)
  case Nil
  then show ?case by simp
next
  case (Cons j sched)
  then show ?case
    by (auto split: option.splits dest: sys_step_length_nodes)
qed

lemma exec_buffer:
  assumes "exec sched s = Some s'" and "i < length (sys_nodes s)"
  shows "\<exists>ys. node_buffer (sys_nodes s' ! i) = node_buffer (sys_nodes s ! i) @ ys"
  using assms
proof (induction sched arbitrary: s)
  case Nil
  then show ?case by simp
next
  case (Cons j sched)
  from Cons.prems(1) obtain s1 where j: "sys_step j s = Some s1" and r: "exec sched s1 = Some s'"
    by (auto split: option.splits)
  have len: "i < length (sys_nodes s1)"
    using Cons.prems(2) sys_step_length_nodes [OF j] by simp
  from Cons.IH [OF r len] obtain ys where
    ys: "node_buffer (sys_nodes s' ! i) = node_buffer (sys_nodes s1 ! i) @ ys" ..
  from sys_step_buffer [OF j Cons.prems(2)] show ?case
    using ys by auto
qed

text \<open>
  Claim C10. The receive buffer never shrinks. \<^verbatim>\<open>buf_event_id\<close> appends one id; a step of a
  thread leaves the buffer of its node as it is or appends one id to it; along any
  schedule the buffer of every node only grows at its end, so no entry is ever removed;
  and the same id is appended twice when it is dequeued twice while another dependency is
  awaited (node 1 of \<open>script_duplicate_id\<close> ends with the buffer \<open>[1, 1]\<close>).
\<close>

theorem buffer_never_shrinks:
  "node_buffer (buf_event_id nd x) = node_buffer nd @ [x]
   \<and> (thread_step s nd = Some (s1, nd1) \<longrightarrow>
        node_buffer nd1 = node_buffer nd \<or> (\<exists>y. node_buffer nd1 = node_buffer nd @ [y]))
   \<and> (exec sched t = Some t2 \<longrightarrow>
        (\<forall>i<length (sys_nodes t).
           \<exists>ys. node_buffer (sys_nodes t2 ! i) = node_buffer (sys_nodes t ! i) @ ys))
   \<and> node_buffer (sys_nodes (the (exec [0, 0, 0, 1, 1, 1] (main 2 script_duplicate_id))) ! 1)
       = [1, 1]"
proof -
  have "node_buffer (sys_nodes (the (exec [0, 0, 0, 1, 1, 1] (main 2 script_duplicate_id))) ! 1)
       = [1, 1]"
    by code_simp
  then show ?thesis
    using thread_step_buffer [of s nd s1 nd1] exec_buffer [of sched t t2]
    by (simp add: buf_event_id_def)
qed

theorem buffer_never_shrinks_witness:
  "thread_step
     \<lparr>sys_store = [[0, 0], [0, 1], [0, 0]],
      sys_queues = [[], [\<lparr>msg_event_id = 1, msg_clock = \<lparr>vc_clock = 2, vc_id = None\<rparr>\<rparr>]],
      sys_stdout = [], sys_nodes = []\<rparr>
     \<lparr>node_id = 1, node_clock = \<lparr>vc_clock = 1, vc_id = Some 1\<rparr>,
      node_events = [Receive 2 3], node_buffer = [1], node_pc = InWait, node_received = []\<rparr>
   = Some (\<lparr>sys_store = [[0, 0], [0, 2], [0, 0]], sys_queues = [[], []],
            sys_stdout = [], sys_nodes = []\<rparr>,
           \<lparr>node_id = 1, node_clock = \<lparr>vc_clock = 1, vc_id = Some 1\<rparr>,
            node_events = [Receive 2 3], node_buffer = [1, 1], node_pc = InWait,
            node_received = [\<lparr>msg_event_id = 1, msg_clock = \<lparr>vc_clock = 2, vc_id = None\<rparr>\<rparr>]\<rparr>)
   \<and> ([1, 1] = [1 :: int] \<or> (\<exists>y. [1, 1] = [1 :: int] @ [y]))
   \<and> exec [0, 0, 0, 1, 1, 1] (main 2 script_duplicate_id) \<noteq> None
   \<and> 1 < length (sys_nodes (main 2 script_duplicate_id))
   \<and> (\<exists>ys. node_buffer (sys_nodes (the (exec [0, 0, 0, 1, 1, 1] (main 2 script_duplicate_id))) ! 1)
              = node_buffer (sys_nodes (main 2 script_duplicate_id) ! 1) @ ys)"
proof -
  have step: "thread_step
     \<lparr>sys_store = [[0, 0], [0, 1], [0, 0]],
      sys_queues = [[], [\<lparr>msg_event_id = 1, msg_clock = \<lparr>vc_clock = 2, vc_id = None\<rparr>\<rparr>]],
      sys_stdout = [], sys_nodes = []\<rparr>
     \<lparr>node_id = 1, node_clock = \<lparr>vc_clock = 1, vc_id = Some 1\<rparr>,
      node_events = [Receive 2 3], node_buffer = [1], node_pc = InWait, node_received = []\<rparr>
   = Some (\<lparr>sys_store = [[0, 0], [0, 2], [0, 0]], sys_queues = [[], []],
            sys_stdout = [], sys_nodes = []\<rparr>,
           \<lparr>node_id = 1, node_clock = \<lparr>vc_clock = 1, vc_id = Some 1\<rparr>,
            node_events = [Receive 2 3], node_buffer = [1, 1], node_pc = InWait,
            node_received = [\<lparr>msg_event_id = 1, msg_clock = \<lparr>vc_clock = 2, vc_id = None\<rparr>\<rparr>]\<rparr>)"
    by code_simp
  have ex: "exec [0, 0, 0, 1, 1, 1] (main 2 script_duplicate_id) \<noteq> None"
    by code_simp
  then obtain t2 where t2: "exec [0, 0, 0, 1, 1, 1] (main 2 script_duplicate_id) = Some t2"
    by blast
  note inst = buffer_never_shrinks
    [where t = "main 2 script_duplicate_id" and sched = "[0, 0, 0, 1, 1, 1]" and ?t2.0 = t2
       and s = "\<lparr>sys_store = [[0, 0], [0, 1], [0, 0]],
      sys_queues = [[], [\<lparr>msg_event_id = 1, msg_clock = \<lparr>vc_clock = 2, vc_id = None\<rparr>\<rparr>]],
      sys_stdout = [], sys_nodes = []\<rparr>"
       and nd = "\<lparr>node_id = 1, node_clock = \<lparr>vc_clock = 1, vc_id = Some 1\<rparr>,
      node_events = [Receive 2 3], node_buffer = [1], node_pc = InWait, node_received = []\<rparr>",
     unfolded step t2]
  from inst have a: "[1, 1] = [1 :: int] \<or> (\<exists>y. [1, 1] = [1 :: int] @ [y])"
    by simp
  have len: "1 < length (sys_nodes (main 2 script_duplicate_id))"
    by code_simp
  from inst have "\<forall>i<length (sys_nodes (main 2 script_duplicate_id)).
         \<exists>ys. node_buffer (sys_nodes t2 ! i)
              = node_buffer (sys_nodes (main 2 script_duplicate_id) ! i) @ ys"
    by blast
  with len have b: "\<exists>ys. node_buffer (sys_nodes t2 ! 1)
              = node_buffer (sys_nodes (main 2 script_duplicate_id) ! 1) @ ys"
    by blast
  from step a b ex t2 len show ?thesis by simp
qed

subsection \<open>Send events\<close>

text \<open>
  Claim C7, as stated, fails. The queue is chosen by \<^verbatim>\<open>ev.receiver\<close> alone: a send that
  names the sender itself puts the message on the sender's own queue, and a send that names
  a node outside the list of queues raises \<^verbatim>\<open>IndexError\<close> before any message is built, so
  that nothing is enqueued.
\<close>

theorem send_to_self_uses_own_queue:
  "exec [0] (main 1 script_self_send) \<noteq> None
   \<and> node_id (sys_nodes (the (exec [0] (main 1 script_self_send))) ! 0) = 0
   \<and> map msg_event_id (sys_queues (the (exec [0] (main 1 script_self_send))) ! 0) = [1]
   \<and> exec [0] (main 1 script_send_nowhere) \<noteq> None
   \<and> sys_queues (the (exec [0] (main 1 script_send_nowhere))) = [[]]
   \<and> node_pc (sys_nodes (the (exec [0] (main 1 script_send_nowhere))) ! 0) = Stopped IndexError"
  by code_simp

text \<open>
  Claim C7, amended. A send event whose receiver id indexes the list of queues appends
  exactly one message to that one queue and changes no other queue (so the sender's own
  queue changes only when the script addresses the send to the sender). The message
  carries the id of the send event and a new clock with id \<^verbatim>\<open>None\<close> whose values are those
  of the sender's clock before the step; the increment of the sender's clock comes after
  the copy and does not reach it.
\<close>

theorem send_appends_snapshot_to_receiver_queue:
  assumes "node_pc nd = Ready" and "node_events nd = ev # evs" and "ev_type ev = ''s''"
    and "ev_receiver ev = Some r" and "py_index (length (sys_queues s)) r = Some k"
    and "vc_clock (node_clock nd) < length (sys_store s)"
    and "thread_step s nd = Some (s', nd')"
  shows "\<exists>m. sys_queues s' = (sys_queues s)[k := sys_queues s ! k @ [m]]
           \<and> (\<forall>j. j \<noteq> k \<longrightarrow> sys_queues s' ! j = sys_queues s ! j)
           \<and> msg_event_id m = ev_event_id ev
           \<and> msg_clock m = \<lparr>vc_clock = length (sys_store s), vc_id = None\<rparr>
           \<and> sys_store s' ! vc_clock (msg_clock m) = sys_store s ! vc_clock (node_clock nd)
           \<and> sys_store s' =
               snd (inc (sys_store s @ [sys_store s ! vc_clock (node_clock nd)]) (node_clock nd))"
proof -
  let ?h = "sys_store s" and ?a = "vc_clock (node_clock nd)"
  let ?m = "\<lparr>msg_event_id = ev_event_id ev,
             msg_clock = \<lparr>vc_clock = length ?h, vc_id = None\<rparr>\<rparr>"
  let ?s1 = "s\<lparr>sys_store := ?h @ [?h ! ?a],
               sys_queues := (sys_queues s)[k := sys_queues s ! k @ [?m]]\<rparr>"
  have c: "copy ?h (node_clock nd) = (?h @ [?h ! ?a], \<lparr>vc_clock = length ?h, vc_id = None\<rparr>)"
    using assms(6) by (rule copy_eq)
  have "thread_step s nd = Some (send_step s nd ev)"
    using assms(1-3) by (simp add: thread_step_def)
  also have "send_step s nd ev = log_inc ?s1 nd ev"
    using assms(4,5) by (simp add: send_step_def c)
  finally have "log_inc ?s1 nd ev = (s', nd')"
    using assms(7) by simp
  then have s': "s' = fst (log_inc ?s1 nd ev)"
    by simp
  have st: "sys_store s' = snd (inc (?h @ [?h ! ?a]) (node_clock nd))"
    and q: "sys_queues s' = (sys_queues s)[k := sys_queues s ! k @ [?m]]"
    unfolding s' by (simp_all add: log_inc_sys)
  have "sys_store s' ! length ?h = (?h @ [?h ! ?a]) ! length ?h"
    unfolding st using assms(6) by (intro inc_frame) simp
  then have snap: "sys_store s' ! vc_clock (msg_clock ?m) = ?h ! ?a"
    by simp
  show ?thesis
    using q snap st by (intro exI [of _ ?m]) simp
qed

theorem send_appends_snapshot_to_receiver_queue_witness:
  "thread_step
     \<lparr>sys_store = [[3, 0], [0, 0]], sys_queues = [[], []], sys_stdout = [], sys_nodes = []\<rparr>
     \<lparr>node_id = 0, node_clock = \<lparr>vc_clock = 0, vc_id = Some 0\<rparr>,
      node_events = [Send 1 1], node_buffer = [], node_pc = Ready, node_received = []\<rparr>
   = Some (\<lparr>sys_store = [[4, 0], [0, 0], [3, 0]],
            sys_queues = [[], [\<lparr>msg_event_id = 1, msg_clock = \<lparr>vc_clock = 2, vc_id = None\<rparr>\<rparr>]],
            sys_stdout = [LogLine 0 1 [3, 0]], sys_nodes = []\<rparr>,
           \<lparr>node_id = 0, node_clock = \<lparr>vc_clock = 0, vc_id = Some 0\<rparr>,
            node_events = [], node_buffer = [], node_pc = Ready, node_received = []\<rparr>)
   \<and> (\<exists>m. [[], [\<lparr>msg_event_id = 1, msg_clock = \<lparr>vc_clock = 2, vc_id = None\<rparr>\<rparr>]] = [[], [m]]
          \<and> msg_event_id m = 1 \<and> msg_clock m = \<lparr>vc_clock = 2, vc_id = None\<rparr>
          \<and> [[4, 0], [0, 0], [3, 0]] ! vc_clock (msg_clock m) = [3, 0 :: int])"
proof -
  let ?S = "\<lparr>sys_store = [[3, 0], [0, 0]], sys_queues = [[], []], sys_stdout = [], sys_nodes = []\<rparr>"
  let ?N = "\<lparr>node_id = 0, node_clock = \<lparr>vc_clock = 0, vc_id = Some 0\<rparr>,
      node_events = [Send 1 1], node_buffer = [], node_pc = Ready, node_received = []\<rparr>"
  let ?S' = "\<lparr>sys_store = [[4, 0], [0, 0], [3, 0]],
            sys_queues = [[], [\<lparr>msg_event_id = 1, msg_clock = \<lparr>vc_clock = 2, vc_id = None\<rparr>\<rparr>]],
            sys_stdout = [LogLine 0 1 [3, 0]], sys_nodes = []\<rparr>"
  let ?N' = "\<lparr>node_id = 0, node_clock = \<lparr>vc_clock = 0, vc_id = Some 0\<rparr>,
            node_events = [], node_buffer = [], node_pc = Ready, node_received = []\<rparr>"
  have step: "thread_step ?S ?N = Some (?S', ?N')"
    by code_simp
  have h: "node_pc ?N = Ready" "node_events ?N = Send 1 1 # []" "ev_type (Send 1 1) = ''s''"
    "ev_receiver (Send 1 1) = Some 1" "py_index (length (sys_queues ?S)) 1 = Some 1"
    "vc_clock (node_clock ?N) < length (sys_store ?S)"
    by (simp_all add: Send_def py_index_def)
  from send_appends_snapshot_to_receiver_queue [OF h step]
  obtain m where m: "sys_queues ?S' = (sys_queues ?S)[1 := sys_queues ?S ! 1 @ [m]]"
    "msg_event_id m = ev_event_id (Send 1 1)"
    "msg_clock m = \<lparr>vc_clock = length (sys_store ?S), vc_id = None\<rparr>"
    "sys_store ?S' ! vc_clock (msg_clock m) = sys_store ?S ! vc_clock (node_clock ?N)"
    by blast
  have "[[], [\<lparr>msg_event_id = 1, msg_clock = \<lparr>vc_clock = 2, vc_id = None\<rparr>\<rparr>]] = [[], [m]]
          \<and> msg_event_id m = 1 \<and> msg_clock m = \<lparr>vc_clock = 2, vc_id = None\<rparr>
          \<and> [[4, 0], [0, 0], [3, 0]] ! vc_clock (msg_clock m) = [3, 0 :: int]"
    using m by (simp add: Send_def)
  with step show ?thesis by blast
qed

section \<open>The two-node scenario\<close>

lemma sys_step_out_of_range: "length (sys_nodes s) \<le> i \<Longrightarrow> sys_step i s = None"
  by (simp add: sys_step_def)

text \<open>
  Claim C1, as stated, fails for node 1. The message carries the copy \<open>[0, 0]\<close> that node 0
  makes before its own increment, the merge into \<open>[0, 0]\<close> increments slot 1 once, and the
  receive event increments it again after logging: node 1 ends with \<open>[0, 2]\<close>, not \<open>[1, 1]\<close>.
\<close>

theorem two_nodes_receiver_ends_0_2:
  "exec [0, 1] (main 2 script_two_nodes) \<noteq> None
   \<and> finished (the (exec [0, 1] (main 2 script_two_nodes)))
   \<and> clock_of (the (exec [0, 1] (main 2 script_two_nodes))) 0 = [1, 0]
   \<and> sys_store (the (exec [0, 1] (main 2 script_two_nodes))) !
        vc_clock (msg_clock (hd (node_received
          (sys_nodes (the (exec [0, 1] (main 2 script_two_nodes))) ! 1)))) = [0, 0]
   \<and> clock_of (the (exec [0, 1] (main 2 script_two_nodes))) 1 = [0, 2]
   \<and> clock_of (the (exec [0, 1] (main 2 script_two_nodes))) 1 \<noteq> [1, 1]"
  by code_simp

lemma two_nodes_schedules:
  assumes "exec sched (main 2 script_two_nodes) = Some s" and "finished s"
  shows "sched = [0, 1]"
proof -
  let ?S0 = "main 2 script_two_nodes"
  let ?S1 = "the (sys_step 0 ?S0)"
  let ?S2 = "the (sys_step 1 ?S1)"
  have len: "length (sys_nodes ?S0) = 2" "length (sys_nodes ?S1) = 2" "length (sys_nodes ?S2) = 2"
    by code_simp+
  have s0: "sys_step 0 ?S0 = Some ?S1" "sys_step 1 ?S0 = None" "\<not> finished ?S0"
    by code_simp+
  have s1: "sys_step 0 ?S1 = None" "sys_step 1 ?S1 = Some ?S2" "\<not> finished ?S1"
    by code_simp+
  have s2: "sys_step 0 ?S2 = None" "sys_step 1 ?S2 = None"
    by code_simp+
  have split: "i = 0 \<or> i = 1 \<or> 2 \<le> i" for i :: nat
    by arith
  have none2: "sys_step l ?S2 = None" for l
    using split [of l] s2 sys_step_out_of_range [of ?S2 l] len(3) by auto
  show ?thesis
  proof (cases sched)
    case Nil
    with assms s0(3) show ?thesis by simp
  next
    case (Cons i r)
    have i: "i = 0"
      using split [of i] assms(1) Cons s0(2) sys_step_out_of_range [of ?S0 i] len(1) by auto
    then have r: "exec r ?S1 = Some s"
      using assms(1) Cons s0(1) by (auto split: option.splits)
    show ?thesis
    proof (cases r)
      case Nil
      with r assms(2) s1(3) show ?thesis by simp
    next
      case (Cons j r')
      have j: "j = 1"
        using split [of j] r Cons s1(1) sys_step_out_of_range [of ?S1 j] len(2) by auto
      then have r': "exec r' ?S2 = Some s"
        using r Cons s1(2) by (auto split: option.splits)
      have "r' = []"
        using r' none2 by (cases r') simp_all
      with i j Cons \<open>sched = i # r\<close> show ?thesis by simp
    qed
  qed
qed

text \<open>
  Claim C1, amended. In the two-node scenario, every schedule that runs both scripts to
  their end leaves node 0 with the clock \<open>[1, 0]\<close> and node 1 with the clock \<open>[0, 2]\<close>: the
  message carries the copy \<open>[0, 0]\<close> made before node 0 increments, its merge increments
  slot 1, and the receive event increments slot 1 once more after logging.
\<close>

theorem two_nodes_final_clocks:
  assumes "exec sched (main 2 script_two_nodes) = Some s" and "finished s"
  shows "clock_of s 0 = [1, 0] \<and> clock_of s 1 = [0, 2]"
proof -
  have "sched = [0, 1]"
    using assms by (rule two_nodes_schedules)
  with assms(1) have s: "s = the (exec [0, 1] (main 2 script_two_nodes))"
    by simp
  have "clock_of (the (exec [0, 1] (main 2 script_two_nodes))) 0 = [1, 0]"
    "clock_of (the (exec [0, 1] (main 2 script_two_nodes))) 1 = [0, 2]"
    by code_simp+
  then show ?thesis
    unfolding s by simp
qed

theorem two_nodes_final_clocks_witness:
  "exec [0, 1] (main 2 script_two_nodes) \<noteq> None
   \<and> finished (the (exec [0, 1] (main 2 script_two_nodes)))
   \<and> clock_of (the (exec [0, 1] (main 2 script_two_nodes))) 0 = [1, 0]
   \<and> clock_of (the (exec [0, 1] (main 2 script_two_nodes))) 1 = [0, 2]"
proof -
  have ex: "exec [0, 1] (main 2 script_two_nodes) \<noteq> None"
    and fin: "finished (the (exec [0, 1] (main 2 script_two_nodes)))"
    by code_simp+
  from ex have run: "exec [0, 1] (main 2 script_two_nodes)
      = Some (the (exec [0, 1] (main 2 script_two_nodes)))"
    by simp
  from two_nodes_final_clocks [OF run fin] ex fin show ?thesis
    by blast
qed

section \<open>Runs of the main program\<close>

subsection \<open>The initial state\<close>

lemma make_nodes_eq:
  "make_nodes h n fr is =
     (h @ replicate (length is) (replicate n 0),
      map (\<lambda>p. Node_init (int (is ! p)) \<lparr>vc_clock = length h + p, vc_id = Some (int (is ! p))\<rparr>
                 (fr (is ! p))) [0..<length is])"
proof (induction "is" arbitrary: h)
  case Nil
  show ?case by simp
next
  case (Cons i "is")
  have shift: "map (\<lambda>p. Node_init (int ((i # is) ! p))
                  \<lparr>vc_clock = length h + p, vc_id = Some (int ((i # is) ! p))\<rparr>
                  (fr ((i # is) ! p))) [Suc 0..<Suc (length is)]
        = map (\<lambda>p. Node_init (int (is ! p))
                  \<lparr>vc_clock = Suc (length h + p), vc_id = Some (int (is ! p))\<rparr>
                  (fr (is ! p))) [0..<length is]"
    by (simp add: map_Suc_upt [symmetric] del: upt_Suc)
  have "[0..<length (i # is)] = 0 # [Suc 0..<Suc (length is)]"
    by (simp add: upt_rec)
  then show ?case
    using shift by (simp add: Cons.IH VectorClock_init_def replicate_append_same del: upt_Suc)
qed

lemma main_eq:
  "main n fr =
     \<lparr>sys_store = replicate n (replicate n 0), sys_queues = replicate n [], sys_stdout = [],
      sys_nodes = map (\<lambda>i. Node_init (int i) \<lparr>vc_clock = i, vc_id = Some (int i)\<rparr> (fr i)) [0..<n]\<rparr>"
proof -
  have "map (\<lambda>p. Node_init (int ([0..<n] ! p)) \<lparr>vc_clock = length ([] :: store) + p,
                    vc_id = Some (int ([0..<n] ! p))\<rparr> (fr ([0..<n] ! p))) [0..<length [0..<n]]
        = map (\<lambda>i. Node_init (int i) \<lparr>vc_clock = i, vc_id = Some (int i)\<rparr> (fr i)) [0..<n]"
    by (rule map_cong) simp_all
  then show ?thesis
    by (simp add: main_def make_nodes_eq)
qed

lemma shape_main: "shape n (main n fr)"
  by (simp add: shape_def main_eq Node_init_def)


subsection \<open>The effect of a step\<close>

lemma py_index_nat: "j < n \<Longrightarrow> py_index n (int j) = Some j"
  by (simp add: py_index_def)

lemma log_inc_eq:
  assumes "node_clock nd = \<lparr>vc_clock = j, vc_id = Some (int j)\<rparr>" and "j < length (sys_store s ! j)"
  shows "log_inc s nd ev =
           (s\<lparr>sys_stdout := sys_stdout s @ [LogLine (node_id nd) (ev_event_id ev) (sys_store s ! j)],
              sys_store := (sys_store s)[j := (sys_store s ! j)[j := sys_store s ! j ! j + 1]]\<rparr>,
            nd\<lparr>node_events := tl (node_events nd), node_pc := Ready\<rparr>)"
proof -
  have "inc (sys_store s) (node_clock nd) =
          (None, (sys_store s)[j := (sys_store s ! j)[j := sys_store s ! j ! j + 1]])"
    using assms by (simp add: inc_def py_index_nat)
  then show ?thesis
    using assms(1) by (simp add: prod_eq_iff log_inc_sys log_inc_node)
qed

lemma sys_step_effect [consumes 2, case_names stop event send other match]:
  assumes "shape n s" and "sys_step j s = Some s'"
  obtains
    (stop) e out where "j < n"
      "s' = s\<lparr>sys_stdout := out,
              sys_nodes := (sys_nodes s)[j := (sys_nodes s ! j)\<lparr>node_pc := Stopped e\<rparr>]\<rparr>"
  | (event) ev evs out where "j < n"
      "node_pc (sys_nodes s ! j) = Ready" "node_events (sys_nodes s ! j) = ev # evs"
      "ev_type ev = ''i'' \<or> (ev_type ev = ''r'' \<and> buffered (sys_nodes s ! j) (ev_dependency ev))"
      "s' = s\<lparr>sys_store := (sys_store s)[j := (sys_store s ! j)[j := sys_store s ! j ! j + 1]],
              sys_stdout := out,
              sys_nodes := (sys_nodes s)
                [j := (sys_nodes s ! j)\<lparr>node_events := evs, node_pc := Ready\<rparr>]\<rparr>"
  | (send) ev evs r k out where "j < n"
      "node_pc (sys_nodes s ! j) = Ready" "node_events (sys_nodes s ! j) = ev # evs"
      "ev_type ev = ''s''" "ev_receiver ev = Some r" "py_index n r = Some k"
      "s' = s\<lparr>sys_store := (sys_store s @ [sys_store s ! j])
                               [j := (sys_store s ! j)[j := sys_store s ! j ! j + 1]],
              sys_queues := (sys_queues s)[k := sys_queues s ! k @
                 [\<lparr>msg_event_id = ev_event_id ev,
                   msg_clock = \<lparr>vc_clock = length (sys_store s), vc_id = None\<rparr>\<rparr>]],
              sys_stdout := out,
              sys_nodes := (sys_nodes s)
                [j := (sys_nodes s ! j)\<lparr>node_events := evs, node_pc := Ready\<rparr>]\<rparr>"
  | (other) ev evs msg rest where "j < n"
      "node_pc (sys_nodes s ! j) = InWait \<or>
       (node_pc (sys_nodes s ! j) = Ready \<and> ev_type ev = ''r'' \<and>
        \<not> buffered (sys_nodes s ! j) (ev_dependency ev))"
      "node_events (sys_nodes s ! j) = ev # evs" "sys_queues s ! j = msg # rest"
      "Some (msg_event_id msg) \<noteq> ev_dependency ev"
      "s' = s\<lparr>sys_store := (sys_store s)
                [j := (map2 max (sys_store s ! j) (sys_store s ! vc_clock (msg_clock msg)))
                        [j := max (sys_store s ! j ! j)
                                  (sys_store s ! vc_clock (msg_clock msg) ! j) + 1]],
              sys_queues := (sys_queues s)[j := rest],
              sys_nodes := (sys_nodes s)
                [j := (sys_nodes s ! j)
                   \<lparr>node_received := node_received (sys_nodes s ! j) @ [msg],
                    node_buffer := node_buffer (sys_nodes s ! j) @ [msg_event_id msg],
                    node_pc := InWait\<rparr>]\<rparr>"
  | (match) ev evs msg rest out where "j < n"
      "node_pc (sys_nodes s ! j) = InWait \<or>
       (node_pc (sys_nodes s ! j) = Ready \<and> ev_type ev = ''r'' \<and>
        \<not> buffered (sys_nodes s ! j) (ev_dependency ev))"
      "node_events (sys_nodes s ! j) = ev # evs" "sys_queues s ! j = msg # rest"
      "Some (msg_event_id msg) = ev_dependency ev"
      "s' = s\<lparr>sys_store := (sys_store s)
                [j := (map2 max (sys_store s ! j) (sys_store s ! vc_clock (msg_clock msg)))
                        [j := max (sys_store s ! j ! j)
                                  (sys_store s ! vc_clock (msg_clock msg) ! j) + 2]],
              sys_queues := (sys_queues s)[j := rest],
              sys_stdout := out,
              sys_nodes := (sys_nodes s)
                [j := (sys_nodes s ! j)
                   \<lparr>node_received := node_received (sys_nodes s ! j) @ [msg],
                    node_events := evs, node_pc := Ready\<rparr>]\<rparr>"
proof -
  let ?nd = "sys_nodes s ! j" and ?h = "sys_store s"
  from sys_step_nodes [OF assms(2)] obtain s1 nd' where
    j': "j < length (sys_nodes s)" and t: "thread_step s ?nd = Some (s1, nd')"
    and s': "s' = s1\<lparr>sys_nodes := (sys_nodes s)[j := nd']\<rparr>"
    by blast
  from assms(1) j' have j: "j < n" and lenq: "length (sys_queues s) = n"
    and jh: "j < length ?h" and lenj: "length (?h ! j) = n"
    and id: "node_id ?nd = int j"
    and clk: "node_clock ?nd = \<lparr>vc_clock = j, vc_id = Some (int j)\<rparr>"
    by (simp_all add: shape_def)
  let ?M = "\<lambda>msg. map2 max (?h ! j) (?h ! vc_clock (msg_clock msg))"
  let ?mx = "\<lambda>msg. max (?h ! j ! j) (?h ! vc_clock (msg_clock msg) ! j)"
  have addr: "n \<le> vc_clock (msg_clock msg) \<and> vc_clock (msg_clock msg) < length ?h"
    if "sys_queues s ! j = msg # rest" for msg rest
    using assms(1) j that unfolding shape_def by (metis list.set_intros(1))
  have len_other: "length (?h ! vc_clock (msg_clock msg)) = n"
    if "sys_queues s ! j = msg # rest" for msg rest
    using assms(1) addr [OF that] by (simp add: shape_def)
  have m_eq: "merge ?h (node_clock ?nd) (msg_clock msg) = (None, ?h[j := (?M msg)[j := ?mx msg + 1]])"
    if "sys_queues s ! j = msg # rest" for msg rest
  proof -
    have "merge ?h (node_clock ?nd) (msg_clock msg) =
           (None, ?h[vc_clock (node_clock ?nd) :=
                      (map2 max (?h ! vc_clock (node_clock ?nd)) (?h ! vc_clock (msg_clock msg)))
                        [j := max (?h ! vc_clock (node_clock ?nd) ! j) (?h ! vc_clock (msg_clock msg) ! j) + 1]])"
      using addr [OF that] len_other [OF that] j jh lenj clk
      by (intro merge_eq [where N = n and i = "int j"]) (simp_all add: py_index_nat)
    then show ?thesis using clk by simp
  qed
  from t show ?thesis
  proof (cases rule: thread_step_cases)
    case (local ev evs)
    have "log_inc s ?nd ev =
           (s\<lparr>sys_stdout := sys_stdout s @ [LogLine (node_id ?nd) (ev_event_id ev) (?h ! j)],
              sys_store := ?h[j := (?h ! j)[j := ?h ! j ! j + 1]]\<rparr>,
            ?nd\<lparr>node_events := tl (node_events ?nd), node_pc := Ready\<rparr>)"
      using clk j lenj by (intro log_inc_eq) simp_all
    with local(4) have "s1 = s\<lparr>sys_stdout := sys_stdout s @ [LogLine (node_id ?nd) (ev_event_id ev) (?h ! j)],
              sys_store := ?h[j := (?h ! j)[j := ?h ! j ! j + 1]]\<rparr>"
      "nd' = ?nd\<lparr>node_events := evs, node_pc := Ready\<rparr>"
      using local(2) by simp_all
    then show ?thesis
      using j local(1-3)
      by (intro event [of ev evs "sys_stdout s @ [LogLine (node_id ?nd) (ev_event_id ev) (?h ! j)]"])
         (simp_all add: s')
  next
    case (send ev evs)
    show ?thesis
    proof (cases rule: send_step_cases [where s = s and nd = ?nd and ev = ev])
      case (raise e)
      with send(4) have "s1 = s" "nd' = ?nd\<lparr>node_pc := Stopped e\<rparr>" by auto
      then show ?thesis
        using j by (intro stop [of e "sys_stdout s"]) (simp_all add: s')
    next
      case (sent r k)
      let ?m = "\<lparr>msg_event_id = ev_event_id ev,
                 msg_clock = \<lparr>vc_clock = length ?h, vc_id = None\<rparr>\<rparr>"
      let ?s2 = "s\<lparr>sys_store := ?h @ [?h ! j],
                   sys_queues := (sys_queues s)[k := sys_queues s ! k @ [?m]]\<rparr>"
      have c: "copy ?h (node_clock ?nd) = (?h @ [?h ! j], \<lparr>vc_clock = length ?h, vc_id = None\<rparr>)"
        using copy_eq [of "node_clock ?nd" ?h] jh clk by simp
      have "send_step s ?nd ev = log_inc ?s2 ?nd ev"
        unfolding sent(3) c by simp
      also have "\<dots> =
           (?s2\<lparr>sys_stdout := sys_stdout ?s2 @ [LogLine (node_id ?nd) (ev_event_id ev) (sys_store ?s2 ! j)],
              sys_store := (sys_store ?s2)[j := (sys_store ?s2 ! j)[j := sys_store ?s2 ! j ! j + 1]]\<rparr>,
            ?nd\<lparr>node_events := tl (node_events ?nd), node_pc := Ready\<rparr>)"
        using clk j lenj jh by (intro log_inc_eq) (simp_all add: nth_append)
      finally have "s1 = ?s2\<lparr>sys_stdout := sys_stdout ?s2 @ [LogLine (node_id ?nd) (ev_event_id ev) (sys_store ?s2 ! j)],
              sys_store := (sys_store ?s2)[j := (sys_store ?s2 ! j)[j := sys_store ?s2 ! j ! j + 1]]\<rparr>"
        "nd' = ?nd\<lparr>node_events := evs, node_pc := Ready\<rparr>"
        using send(2,4) by simp_all
      then show ?thesis
        using j jh send(1-3) sent(1,2) lenq
        by (intro that(3) [of ev evs r k
              "sys_stdout s @ [LogLine (node_id ?nd) (ev_event_id ev) (?h ! j)]"])
           (simp_all add: s' nth_append)
    qed
  next
    case (recv ev evs)
    from recv(3) show ?thesis
    proof (cases rule: receive_step_cases)
      case noqueue
      then show ?thesis using id j lenq by (simp add: py_index_nat)
    next
      case (raise k msg rest x)
      from raise(1) have k: "k = j" using id j lenq by (simp add: py_index_nat)
      from m_eq [OF raise(2) [unfolded k]] raise(3) show ?thesis by simp
    next
      case (other k msg rest)
      from other(1) have k: "k = j" using id j lenq by (simp add: py_index_nat)
      note m = m_eq [OF other(2) [unfolded k]]
      from other(5,6) have "s1 = s\<lparr>sys_store := ?h[j := (?M msg)[j := ?mx msg + 1]],
              sys_queues := (sys_queues s)[j := rest]\<rparr>"
        "nd' = ?nd\<lparr>node_received := node_received ?nd @ [msg],
                node_buffer := node_buffer ?nd @ [msg_event_id msg], node_pc := InWait\<rparr>"
        unfolding m k by simp_all
      then show ?thesis
        using j recv(1,2) other(2,4) unfolding k
        by (intro that(4) [of ev evs msg rest]) (simp_all add: s')
    next
      case (match k msg rest)
      from match(1) have k: "k = j" using id j lenq by (simp add: py_index_nat)
      note m = m_eq [OF match(2) [unfolded k]]
      let ?s2 = "s\<lparr>sys_store := ?h[j := (?M msg)[j := ?mx msg + 1]],
                   sys_queues := (sys_queues s)[j := rest]\<rparr>"
      let ?nd2 = "?nd\<lparr>node_received := node_received ?nd @ [msg]\<rparr>"
      have lenM: "length (?M msg) = n"
        using lenj len_other [OF match(2) [unfolded k]] by simp
      have "log_inc ?s2 ?nd2 ev =
           (?s2\<lparr>sys_stdout := sys_stdout ?s2 @ [LogLine (node_id ?nd2) (ev_event_id ev) (sys_store ?s2 ! j)],
              sys_store := (sys_store ?s2)[j := (sys_store ?s2 ! j)[j := sys_store ?s2 ! j ! j + 1]]\<rparr>,
            ?nd2\<lparr>node_events := tl (node_events ?nd2), node_pc := Ready\<rparr>)"
        using clk j jh lenM by (intro log_inc_eq) simp_all
      with match(5) have "s1 = ?s2\<lparr>sys_stdout := sys_stdout ?s2 @ [LogLine (node_id ?nd2) (ev_event_id ev) (sys_store ?s2 ! j)],
              sys_store := (sys_store ?s2)[j := (sys_store ?s2 ! j)[j := sys_store ?s2 ! j ! j + 1]]\<rparr>"
        "nd' = ?nd2\<lparr>node_events := tl (node_events ?nd2), node_pc := Ready\<rparr>"
        unfolding m k by simp_all
      then show ?thesis
        using j jh recv(1,2) match(2,4) lenM unfolding k
        by (intro that(5) [of ev evs msg rest
              "sys_stdout s @ [LogLine (node_id ?nd) (ev_event_id ev) (?h[j := (?M msg)[j := ?mx msg + 1]] ! j)]"])
           (simp_all add: s' add.commute)
    qed
  next
    case (invalid ev evs)
    then show ?thesis
      using j by (intro stop [of SystemExit "sys_stdout s @ [InvalidEventLine]"]) (simp_all add: s')
  qed
qed

subsection \<open>Facts that every step keeps\<close>

lemma exec_invariant:
  assumes "exec sched s = Some s'" and "P s"
    and "\<And>j t t'. P t \<Longrightarrow> sys_step j t = Some t' \<Longrightarrow> P t'"
  shows "P s'"
  using assms(1,2)
proof (induction sched arbitrary: s)
  case Nil
  then show ?case by simp
next
  case (Cons j sched)
  from Cons.prems(1) obtain t where j: "sys_step j s = Some t" and r: "exec sched t = Some s'"
    by (auto split: option.splits)
  from Cons.prems(2) j have "P t" by (rule assms(3))
  with r show ?case by (rule Cons.IH)
qed

lemma shape_step:
  assumes "shape n s" and "sys_step j s = Some s'"
  shows "shape n s'"
  using assms
proof (cases rule: sys_step_effect)
  case (stop e out)
  with assms(1) show ?thesis
    by (simp add: shape_def nth_list_update)
next
  case (event ev evs out)
  with assms(1) show ?thesis
    by (simp add: shape_def nth_list_update)
next
  case (send ev evs r k out)
  have k: "k < n" using send(6) by (rule py_index_less)
  have q: "\<forall>k'<n. \<forall>m\<in>set ((sys_queues s)[k := sys_queues s ! k @
                 [\<lparr>msg_event_id = ev_event_id ev,
                   msg_clock = \<lparr>vc_clock = length (sys_store s), vc_id = None\<rparr>\<rparr>]] ! k').
            n \<le> vc_clock (msg_clock m) \<and> vc_clock (msg_clock m) < Suc (length (sys_store s))"
    using assms(1) k by (auto simp: shape_def nth_list_update less_Suc_eq)
  have c: "\<forall>c<Suc (length (sys_store s)).
             length ((sys_store s @ [sys_store s ! j])
                       [j := (sys_store s ! j)[j := sys_store s ! j ! j + 1]] ! c) = n"
    using assms(1) send(1) by (auto simp: shape_def nth_list_update nth_append less_Suc_eq)
  from assms(1) send(1) q c show ?thesis
    unfolding send(7) by (simp add: shape_def nth_list_update)
next
  case (other ev evs msg rest)
  have a: "vc_clock (msg_clock msg) < length (sys_store s)"
    using assms(1) other(1,4) unfolding shape_def by (metis list.set_intros(1))
  have q: "\<forall>k'<n. \<forall>m\<in>set ((sys_queues s)[j := rest] ! k').
            n \<le> vc_clock (msg_clock m) \<and> vc_clock (msg_clock m) < length (sys_store s)"
    using assms(1) other(1,4) by (auto simp: shape_def nth_list_update)
  from assms(1) other(1) a q show ?thesis
    unfolding other(6) by (simp add: shape_def nth_list_update)
next
  case (match ev evs msg rest out)
  have a: "vc_clock (msg_clock msg) < length (sys_store s)"
    using assms(1) match(1,4) unfolding shape_def by (metis list.set_intros(1))
  have q: "\<forall>k'<n. \<forall>m\<in>set ((sys_queues s)[j := rest] ! k').
            n \<le> vc_clock (msg_clock m) \<and> vc_clock (msg_clock m) < length (sys_store s)"
    using assms(1) match(1,4) by (auto simp: shape_def nth_list_update)
  from assms(1) match(1) a q show ?thesis
    unfolding match(6) by (simp add: shape_def nth_list_update)
qed

lemma shape_exec: "exec sched (main n fr) = Some s \<Longrightarrow> shape n s"
  by (erule exec_invariant [where P = "shape n"]) (auto intro: shape_main shape_step)

text \<open>
  What a step of thread \<open>j\<close> does to the store and to the other nodes: the store only
  gets longer, every list but the clock of \<open>j\<close> keeps its values, the clock of \<open>j\<close> does not
  go down in any slot, and no other node changes.
\<close>

lemma sys_step_frame:
  assumes "shape n s" and "sys_step j s = Some s'"
  shows "j < n \<and> length (sys_store s) \<le> length (sys_store s')
         \<and> (\<forall>c<length (sys_store s). c \<noteq> j \<longrightarrow> sys_store s' ! c = sys_store s ! c)
         \<and> (\<forall>k<n. sys_store s ! j ! k \<le> sys_store s' ! j ! k)
         \<and> (\<forall>i<n. i \<noteq> j \<longrightarrow> sys_nodes s' ! i = sys_nodes s ! i)"
proof -
  have len: "length (sys_store s ! c) = n" if "c < length (sys_store s)" for c
    using assms(1) that by (simp add: shape_def)
  have n: "n \<le> length (sys_store s)" "length (sys_nodes s) = n"
    using assms(1) by (simp_all add: shape_def)
  from assms show ?thesis
  proof (cases rule: sys_step_effect)
    case (stop e out)
    then show ?thesis by simp
  next
    case (event ev evs out)
    with n len [of j] show ?thesis
      by (simp add: nth_list_update)
  next
    case (send ev evs r k out)
    with n len [of j] show ?thesis
      by (simp add: nth_list_update nth_append)
  next
    case (other ev evs msg rest)
    have a: "vc_clock (msg_clock msg) < length (sys_store s)"
      using assms(1) other(1,4) unfolding shape_def by (metis list.set_intros(1))
    from other n len [of j] len [OF a] show ?thesis
      by (simp add: nth_list_update)
  next
    case (match ev evs msg rest out)
    have a: "vc_clock (msg_clock msg) < length (sys_store s)"
      using assms(1) match(1,4) unfolding shape_def by (metis list.set_intros(1))
    from match n len [of j] len [OF a] show ?thesis
      by (simp add: nth_list_update)
  qed
qed

lemma own_max_cell:
  fixes h :: store
  assumes "\<forall>c<length h. \<forall>i<n. h ! c ! i \<le> h ! i ! i" and "j < n" and "n \<le> length h"
    and "\<forall>i<n. i \<noteq> j \<longrightarrow> zs ! i \<le> h ! i ! i" and "h ! j ! j \<le> zs ! j"
  shows "\<forall>c<length (h[j := zs]). \<forall>i<n. h[j := zs] ! c ! i \<le> h[j := zs] ! i ! i"
proof (intro allI impI)
  fix c i
  assume c: "c < length (h[j := zs])" and i: "i < n"
  then have c': "c < length h" and i': "i < length h" and j': "j < length h"
    using assms(2,3) by simp_all
  show "h[j := zs] ! c ! i \<le> h[j := zs] ! i ! i"
  proof (cases "i = j")
    case True
    have "h ! c ! j \<le> h ! j ! j" using assms(1,2) c' by simp
    with assms(5) have "h ! c ! j \<le> zs ! j" by simp
    with True j' show ?thesis by (simp add: nth_list_update)
  next
    case False
    have "h ! c ! i \<le> h ! i ! i" using assms(1) c' i by simp
    with False assms(4) i i' j' show ?thesis by (simp add: nth_list_update)
  qed
qed

lemma own_max_append:
  fixes h :: store
  assumes "\<forall>c<length h. \<forall>i<n. h ! c ! i \<le> h ! i ! i" and "j < length h" and "n \<le> length h"
  shows "\<forall>c<length (h @ [h ! j]). \<forall>i<n. (h @ [h ! j]) ! c ! i \<le> (h @ [h ! j]) ! i ! i"
  using assms by (auto simp: nth_append less_Suc_eq)

lemma own_max_step:
  assumes "shape n s" and "own_max n s" and "sys_step j s = Some s'"
  shows "own_max n s'"
proof -
  let ?h = "sys_store s"
  have om: "\<forall>c<length ?h. \<forall>i<n. ?h ! c ! i \<le> ?h ! i ! i"
    using assms(2) by (simp add: own_max_def)
  have n: "n \<le> length ?h"
    using assms(1) by (simp add: shape_def)
  have len: "length (?h ! c) = n" if "c < length ?h" for c
    using assms(1) that by (simp add: shape_def)
  from assms(1,3) show ?thesis
  proof (cases rule: sys_step_effect)
    case (stop e out)
    with om show ?thesis by (simp add: own_max_def)
  next
    case (event ev evs out)
    have "\<forall>c<length (?h[j := (?h ! j)[j := ?h ! j ! j + 1]]). \<forall>i<n.
            ?h[j := (?h ! j)[j := ?h ! j ! j + 1]] ! c ! i \<le> ?h[j := (?h ! j)[j := ?h ! j ! j + 1]] ! i ! i"
      using om event(1) n len [of j] by (intro own_max_cell) (simp_all add: nth_list_update)
    then show ?thesis unfolding event(5) by (simp add: own_max_def)
  next
    case (send ev evs r k out)
    let ?h1 = "?h @ [?h ! j]"
    have om1: "\<forall>c<length ?h1. \<forall>i<n. ?h1 ! c ! i \<le> ?h1 ! i ! i"
      using om send(1) n by (intro own_max_append) simp_all
    have h1: "?h1 ! i = ?h ! i" if "i < n" for i
      using that n by (simp add: nth_append)
    have "\<forall>c<length (?h1[j := (?h ! j)[j := ?h ! j ! j + 1]]). \<forall>i<n.
            ?h1[j := (?h ! j)[j := ?h ! j ! j + 1]] ! c ! i \<le> ?h1[j := (?h ! j)[j := ?h ! j ! j + 1]] ! i ! i"
      using om1 send(1) n len [of j] om
      by (intro own_max_cell) (simp_all add: nth_list_update h1)
    then show ?thesis unfolding send(7) by (simp add: own_max_def)
  next
    case (other ev evs msg rest)
    let ?a = "vc_clock (msg_clock msg)"
    have a: "?a < length ?h"
      using assms(1) other(1,4) unfolding shape_def by (metis list.set_intros(1))
    let ?zs = "(map2 max (?h ! j) (?h ! ?a))[j := max (?h ! j ! j) (?h ! ?a ! j) + 1]"
    have "\<forall>c<length (?h[j := ?zs]). \<forall>i<n. ?h[j := ?zs] ! c ! i \<le> ?h[j := ?zs] ! i ! i"
      using om other(1) n len [of j] len [OF a] a
      by (intro own_max_cell) (simp_all add: nth_list_update)
    then show ?thesis unfolding other(6) by (simp add: own_max_def)
  next
    case (match ev evs msg rest out)
    let ?a = "vc_clock (msg_clock msg)"
    have a: "?a < length ?h"
      using assms(1) match(1,4) unfolding shape_def by (metis list.set_intros(1))
    let ?zs = "(map2 max (?h ! j) (?h ! ?a))[j := max (?h ! j ! j) (?h ! ?a ! j) + 2]"
    have "\<forall>c<length (?h[j := ?zs]). \<forall>i<n. ?h[j := ?zs] ! c ! i \<le> ?h[j := ?zs] ! i ! i"
      using om match(1) n len [of j] len [OF a] a
      by (intro own_max_cell) (simp_all add: nth_list_update)
    then show ?thesis unfolding match(6) by (simp add: own_max_def)
  qed
qed

lemma counted_step:
  assumes "shape n s" and "own_max n s" and "counted n fr s" and "sys_step j s = Some s'"
  shows "counted n fr s'"
proof -
  let ?h = "sys_store s"
  have n: "n \<le> length ?h" "length (sys_nodes s) = n"
    using assms(1) by (simp_all add: shape_def)
  have len: "length (?h ! c) = n" if "c < length ?h" for c
    using assms(1) that by (simp add: shape_def)
  have cnt: "?h ! i ! i + int (length (node_events (sys_nodes s ! i)))
             = int (length (fr i)) + int (length (node_received (sys_nodes s ! i)))" if "i < n" for i
    using assms(3) that by (simp add: counted_def)
  from assms(1,4) show ?thesis
  proof (cases rule: sys_step_effect)
    case (stop e out)
    show ?thesis
      unfolding counted_def stop(2) using cnt n stop(1) by (auto simp: nth_list_update)
  next
    case (event ev evs out)
    show ?thesis
      unfolding counted_def event(5)
      using cnt cnt [OF event(1)] n event(1,3) len [of j] by (auto simp: nth_list_update)
  next
    case (send ev evs r k out)
    show ?thesis
      unfolding counted_def send(7)
      using cnt cnt [OF send(1)] n send(1,3) len [of j] by (auto simp: nth_list_update nth_append)
  next
    case (other ev evs msg rest)
    let ?a = "vc_clock (msg_clock msg)"
    have a: "?a < length ?h"
      using assms(1) other(1,4) unfolding shape_def by (metis list.set_intros(1))
    have "?h ! ?a ! j \<le> ?h ! j ! j"
      using assms(2) a other(1) by (simp add: own_max_def)
    then have mx: "max (?h ! j ! j) (?h ! ?a ! j) = ?h ! j ! j" by simp
    show ?thesis
      unfolding counted_def other(6) mx
      using cnt cnt [OF other(1)] n other(1,3) len [of j] len [OF a]
      by (auto simp: nth_list_update)
  next
    case (match ev evs msg rest out)
    let ?a = "vc_clock (msg_clock msg)"
    have a: "?a < length ?h"
      using assms(1) match(1,4) unfolding shape_def by (metis list.set_intros(1))
    have "?h ! ?a ! j \<le> ?h ! j ! j"
      using assms(2) a match(1) by (simp add: own_max_def)
    then have mx: "max (?h ! j ! j) (?h ! ?a ! j) = ?h ! j ! j" by simp
    show ?thesis
      unfolding counted_def match(6) mx
      using cnt cnt [OF match(1)] n match(1,3) len [of j] len [OF a]
      by (auto simp: nth_list_update)
  qed
qed

lemma dominated_step:
  assumes "shape n s" and "dominated n s" and "sys_step j s = Some s'"
  shows "dominated n s'"
proof -
  let ?h = "sys_store s" and ?h' = "sys_store s'"
  from sys_step_frame [OF assms(1,3)] have j: "j < n"
    and grow: "length ?h \<le> length ?h'"
    and keep: "\<And>c. c < length ?h \<Longrightarrow> c \<noteq> j \<Longrightarrow> ?h' ! c = ?h ! c"
    and up: "\<And>k. k < n \<Longrightarrow> ?h ! j ! k \<le> ?h' ! j ! k"
    and nodes: "\<And>i. i < n \<Longrightarrow> i \<noteq> j \<Longrightarrow> sys_nodes s' ! i = sys_nodes s ! i"
    by blast+
  have n: "n \<le> length ?h" "length (sys_nodes s) = n"
    using assms(1) by (simp_all add: shape_def)
  have len: "length (?h ! c) = n" if "c < length ?h" for c
    using assms(1) that by (simp add: shape_def)
  have dom: "n \<le> vc_clock (msg_clock m) \<and> vc_clock (msg_clock m) < length ?h
             \<and> (\<forall>k<n. ?h ! vc_clock (msg_clock m) ! k \<le> ?h ! i ! k)"
    if "i < n" "m \<in> set (node_received (sys_nodes s ! i))" for i m
    using assms(2) that unfolding dominated_def by blast
  have buf: "set (node_buffer (sys_nodes s ! i)) \<subseteq> msg_event_id ` set (node_received (sys_nodes s ! i))"
    if "i < n" for i
    using assms(2) that unfolding dominated_def by blast
  txt \<open>A message received before the step is still dominated after it.\<close>
  have old: "n \<le> vc_clock (msg_clock m) \<and> vc_clock (msg_clock m) < length ?h'
             \<and> (\<forall>k<n. ?h' ! vc_clock (msg_clock m) ! k \<le> ?h' ! i ! k)"
    if "i < n" "m \<in> set (node_received (sys_nodes s ! i))" for i m
  proof -
    let ?a = "vc_clock (msg_clock m)"
    from dom [OF that] have a: "n \<le> ?a" "?a < length ?h"
      and d: "\<And>k. k < n \<Longrightarrow> ?h ! ?a ! k \<le> ?h ! i ! k"
      by blast+
    have aj: "?a \<noteq> j" using a(1) j by simp
    have snap: "?h' ! ?a = ?h ! ?a" using a(2) aj by (rule keep)
    have "?h ! i ! k \<le> ?h' ! i ! k" if "k < n" for k
    proof (cases "i = j")
      case True
      with up [OF that] show ?thesis by simp
    next
      case False
      have "i < length ?h" using \<open>i < n\<close> n by simp
      then have "?h' ! i = ?h ! i" using False by (rule keep)
      then show ?thesis by simp
    qed
    with d have "?h' ! ?a ! k \<le> ?h' ! i ! k" if "k < n" for k
      unfolding snap using that by (meson order_trans)
    with a grow show ?thesis by simp
  qed
  txt \<open>The nodes other than \<open>j\<close>.\<close>
  have others: "(\<forall>m\<in>set (node_received (sys_nodes s' ! i)).
                n \<le> vc_clock (msg_clock m) \<and> vc_clock (msg_clock m) < length ?h'
                \<and> (\<forall>k<n. ?h' ! vc_clock (msg_clock m) ! k \<le> ?h' ! i ! k))
            \<and> set (node_buffer (sys_nodes s' ! i))
                \<subseteq> msg_event_id ` set (node_received (sys_nodes s' ! i))"
    if "i < n" "i \<noteq> j" for i
    using old [OF that(1)] buf [OF that(1)] nodes [OF that] by simp
  txt \<open>The node that moved.\<close>
  have self: "(\<forall>m\<in>set (node_received (sys_nodes s' ! j)).
                n \<le> vc_clock (msg_clock m) \<and> vc_clock (msg_clock m) < length ?h'
                \<and> (\<forall>k<n. ?h' ! vc_clock (msg_clock m) ! k \<le> ?h' ! j ! k))
            \<and> set (node_buffer (sys_nodes s' ! j))
                \<subseteq> msg_event_id ` set (node_received (sys_nodes s' ! j))"
    using assms(1,3)
  proof (cases rule: sys_step_effect)
    case (stop e out)
    have "sys_nodes s' ! j = (sys_nodes s ! j)\<lparr>node_pc := Stopped e\<rparr>"
      unfolding stop(2) using j n by simp
    then show ?thesis using old [OF j] buf [OF j] by simp
  next
    case (event ev evs out)
    have "sys_nodes s' ! j = (sys_nodes s ! j)\<lparr>node_events := evs, node_pc := Ready\<rparr>"
      unfolding event(5) using j n by simp
    then show ?thesis using old [OF j] buf [OF j] by simp
  next
    case (send ev evs r k out)
    have "sys_nodes s' ! j = (sys_nodes s ! j)\<lparr>node_events := evs, node_pc := Ready\<rparr>"
      unfolding send(7) using j n by simp
    then show ?thesis using old [OF j] buf [OF j] by simp
  next
    case (other ev evs msg rest)
    let ?a = "vc_clock (msg_clock msg)"
    have a: "n \<le> ?a" "?a < length ?h"
      using assms(1) other(1,4) unfolding shape_def by (metis list.set_intros(1))+
    have nd: "sys_nodes s' ! j = (sys_nodes s ! j)
                   \<lparr>node_received := node_received (sys_nodes s ! j) @ [msg],
                    node_buffer := node_buffer (sys_nodes s ! j) @ [msg_event_id msg],
                    node_pc := InWait\<rparr>"
      unfolding other(6) using j n by simp
    have snap: "?h' ! ?a = ?h ! ?a" using a j by (intro keep) simp_all
    have new: "?h' ! ?a ! k \<le> ?h' ! j ! k" if "k < n" for k
      unfolding snap unfolding other(6)
      using that j n len [of j] len [OF a(2)] by (auto simp: nth_list_update max_def)
    show ?thesis
      unfolding nd using old [OF j] buf [OF j] new a grow by auto
  next
    case (match ev evs msg rest out)
    let ?a = "vc_clock (msg_clock msg)"
    have a: "n \<le> ?a" "?a < length ?h"
      using assms(1) match(1,4) unfolding shape_def by (metis list.set_intros(1))+
    have nd: "sys_nodes s' ! j = (sys_nodes s ! j)
                   \<lparr>node_received := node_received (sys_nodes s ! j) @ [msg],
                    node_events := evs, node_pc := Ready\<rparr>"
      unfolding match(6) using j n by simp
    have snap: "?h' ! ?a = ?h ! ?a" using a j by (intro keep) simp_all
    have new: "?h' ! ?a ! k \<le> ?h' ! j ! k" if "k < n" for k
      unfolding snap unfolding match(6)
      using that j n len [of j] len [OF a(2)] by (auto simp: nth_list_update max_def)
    show ?thesis
      unfolding nd using old [OF j] buf [OF j] new a grow by auto
  qed
  show ?thesis
    unfolding dominated_def
  proof (intro allI impI)
    fix i assume "i < n"
    then show "(\<forall>m\<in>set (node_received (sys_nodes s' ! i)).
                n \<le> vc_clock (msg_clock m) \<and> vc_clock (msg_clock m) < length ?h'
                \<and> (\<forall>k<n. ?h' ! vc_clock (msg_clock m) ! k \<le> ?h' ! i ! k))
            \<and> set (node_buffer (sys_nodes s' ! i))
                \<subseteq> msg_event_id ` set (node_received (sys_nodes s' ! i))"
      using others [of i] self by (cases "i = j") simp_all
  qed
qed

subsection \<open>Every state of a run\<close>

lemma shape_clock_of: "shape n s \<Longrightarrow> i < n \<Longrightarrow> clock_of s i = sys_store s ! i"
  by (simp add: shape_def clock_of_def)

lemma invariants_step:
  assumes "shape n s \<and> own_max n s \<and> counted n fr s \<and> dominated n s"
    and "sys_step j s = Some s'"
  shows "shape n s' \<and> own_max n s' \<and> counted n fr s' \<and> dominated n s'"
  using assms shape_step own_max_step counted_step dominated_step by blast

lemma invariants_main:
  "shape n (main n fr) \<and> own_max n (main n fr) \<and> counted n fr (main n fr) \<and> dominated n (main n fr)"
proof -
  have "own_max n (main n fr)"
    by (simp add: own_max_def main_eq)
  moreover have "counted n fr (main n fr)"
    by (simp add: counted_def main_eq Node_init_def)
  moreover have "dominated n (main n fr)"
    by (simp add: dominated_def main_eq Node_init_def)
  ultimately show ?thesis
    using shape_main by blast
qed

lemma invariants_exec:
  assumes "shape n s \<and> own_max n s \<and> counted n fr s \<and> dominated n s"
    and "exec sched s = Some s'"
  shows "shape n s' \<and> own_max n s' \<and> counted n fr s' \<and> dominated n s'"
  using assms(2,1)
  by (rule exec_invariant
        [where P = "\<lambda>t. shape n t \<and> own_max n t \<and> counted n fr t \<and> dominated n t"])
     (rule invariants_step)

lemma invariants_run:
  assumes "exec sched (main n fr) = Some s"
  shows "shape n s \<and> own_max n s \<and> counted n fr s \<and> dominated n s"
  using invariants_main assms by (rule invariants_exec)

text \<open>
  Along a run, the clock of a node does not go down in any slot, and a list at an address
  from \<open>n\<close> on, where the copies for messages are allocated, never changes.
\<close>

lemma clock_mono_exec:
  assumes "shape n s" and "exec sched s = Some s'" and "i < n"
  shows "shape n s' \<and> (\<forall>k<n. sys_store s ! i ! k \<le> sys_store s' ! i ! k)"
  using assms(2,1)
proof (induction sched arbitrary: s)
  case Nil
  then show ?case by simp
next
  case (Cons j sched)
  from Cons.prems(1) obtain t where j: "sys_step j s = Some t" and r: "exec sched t = Some s'"
    by (auto split: option.splits)
  have t: "shape n t" using Cons.prems(2) j by (rule shape_step)
  from Cons.IH [OF r t] have s': "shape n s'"
    and rest: "\<And>k. k < n \<Longrightarrow> sys_store t ! i ! k \<le> sys_store s' ! i ! k"
    by blast+
  from sys_step_frame [OF Cons.prems(2) j] have
    keep: "\<And>c. c < length (sys_store s) \<Longrightarrow> c \<noteq> j \<Longrightarrow> sys_store t ! c = sys_store s ! c"
    and up: "\<And>k. k < n \<Longrightarrow> sys_store s ! j ! k \<le> sys_store t ! j ! k"
    by blast+
  have i: "i < length (sys_store s)"
    using Cons.prems(2) assms(3) by (simp add: shape_def)
  have "sys_store s ! i ! k \<le> sys_store t ! i ! k" if "k < n" for k
    using keep [OF i] up [OF that] by (cases "i = j") simp_all
  with rest have "sys_store s ! i ! k \<le> sys_store s' ! i ! k" if "k < n" for k
    using that by (meson order_trans)
  with s' show ?case by blast
qed

lemma snapshots_immutable:
  assumes "shape n s" and "exec sched s = Some s'" and "n \<le> c" and "c < length (sys_store s)"
  shows "c < length (sys_store s') \<and> sys_store s' ! c = sys_store s ! c"
  using assms(2,1,4)
proof (induction sched arbitrary: s)
  case Nil
  then show ?case by simp
next
  case (Cons j sched)
  from Cons.prems(1) obtain t where j: "sys_step j s = Some t" and r: "exec sched t = Some s'"
    by (auto split: option.splits)
  have t: "shape n t" using Cons.prems(2) j by (rule shape_step)
  from sys_step_frame [OF Cons.prems(2) j] have jn: "j < n"
    and grow: "length (sys_store s) \<le> length (sys_store t)"
    and keep: "\<And>c. c < length (sys_store s) \<Longrightarrow> c \<noteq> j \<Longrightarrow> sys_store t ! c = sys_store s ! c"
    by blast+
  have c: "c < length (sys_store t)" using Cons.prems(3) grow by simp
  have "sys_store t ! c = sys_store s ! c"
    using Cons.prems(3) jn assms(3) by (intro keep) simp_all
  with Cons.IH [OF r t c] show ?case by simp
qed

section \<open>Monotonicity of the own slot\<close>

text \<open>
  Claim C2, as stated, fails for a receive event that reads the queue. In the run of
  \<open>script_buffer_reuse\<close>, node 1 has its three events ahead and the clock \<open>[0, 0]\<close> after
  node 0 has sent twice; its first event, the receive event 2, dequeues two messages and
  is finished two steps later with the clock \<open>[1, 3]\<close>: one event has raised the own slot
  by 3.
\<close>

theorem receive_event_raises_own_slot_by_3:
  "exec [0, 0, 1, 1] (main 2 script_buffer_reuse) \<noteq> None
   \<and> clock_of (the (exec [0, 0] (main 2 script_buffer_reuse))) 1 = [0, 0]
   \<and> map ev_event_id (node_events (sys_nodes (the (exec [0, 0] (main 2 script_buffer_reuse))) ! 1))
       = [2, 4, 5]
   \<and> clock_of (the (exec [0, 0, 1, 1] (main 2 script_buffer_reuse))) 1 = [1, 3]
   \<and> map ev_event_id (node_events (sys_nodes (the (exec [0, 0, 1, 1] (main 2 script_buffer_reuse))) ! 1))
       = [4, 5]
   \<and> clock_of (the (exec [0, 0, 1, 1] (main 2 script_buffer_reuse))) 1 ! 1
       \<noteq> clock_of (the (exec [0, 0] (main 2 script_buffer_reuse))) 1 ! 1 + 1"
  by code_simp

lemma own_slot_counted:
  assumes "counted n fr s" and "counted n fr s'" and "shape n s" and "shape n s'" and "i < n"
  shows "clock_of s' i ! i + int (length (node_events (sys_nodes s' ! i)))
            + int (length (node_received (sys_nodes s ! i)))
         = clock_of s i ! i + int (length (node_events (sys_nodes s ! i)))
            + int (length (node_received (sys_nodes s' ! i)))"
proof -
  have "sys_store s ! i ! i + int (length (node_events (sys_nodes s ! i)))
             = int (length (fr i)) + int (length (node_received (sys_nodes s ! i)))"
    "sys_store s' ! i ! i + int (length (node_events (sys_nodes s' ! i)))
             = int (length (fr i)) + int (length (node_received (sys_nodes s' ! i)))"
    using assms(1,2,5) by (simp_all add: counted_def)
  then show ?thesis
    using assms(3-5) by (simp add: shape_clock_of [of n])
qed

lemma local_step_effect:
  assumes "shape n s" and "sys_step i s = Some s'"
    and "node_pc (sys_nodes s ! i) = Ready" and "node_events (sys_nodes s ! i) = ev # evs"
    and "ev_type ev = ''i'' \<or> ev_type ev = ''s''
         \<or> (ev_type ev = ''r'' \<and> buffered (sys_nodes s ! i) (ev_dependency ev))"
    and "node_pc (sys_nodes s' ! i) = Ready"
  shows "node_events (sys_nodes s' ! i) = evs
         \<and> node_received (sys_nodes s' ! i) = node_received (sys_nodes s ! i)"
proof -
  have n: "length (sys_nodes s) = n" using assms(1) by (simp add: shape_def)
  from assms(1,2) show ?thesis
  proof (cases rule: sys_step_effect)
    case (stop e out)
    with assms(6) n show ?thesis by simp
  next
    case (event ev' evs' out)
    with assms(4) n show ?thesis by simp
  next
    case (send ev' evs' r k out)
    with assms(4) n show ?thesis by simp
  next
    case (other ev' evs' msg rest)
    with assms(3-5) show ?thesis by auto
  next
    case (match ev' evs' msg rest out)
    with assms(3-5) show ?thesis by auto
  qed
qed

text \<open>
  Claim C2, amended. Across any execution the own slot of a node is non-decreasing.
  Over any stretch of a run it grows by the number of events the node finishes plus the
  number of messages the node dequeues in that stretch; so an event raises it by exactly
  1 plus the number of messages dequeued for it. An independent event, a send event and
  a receive event whose dependency is already buffered are one step that dequeues
  nothing: they raise the own slot by exactly 1. A receive event that reads the queue
  raises it by 1 for every message it dequeues, and by 1 more when it is finished.
\<close>

theorem own_slot_growth:
  assumes "exec sched (main n fr) = Some s" and "exec sched' s = Some s'" and "i < n"
  shows "clock_of s i ! i \<le> clock_of s' i ! i
         \<and> clock_of s' i ! i - clock_of s i ! i
             = (int (length (node_events (sys_nodes s ! i)))
                  - int (length (node_events (sys_nodes s' ! i))))
               + (int (length (node_received (sys_nodes s' ! i)))
                  - int (length (node_received (sys_nodes s ! i))))
         \<and> (\<forall>ev. node_events (sys_nodes s ! i) = ev # node_events (sys_nodes s' ! i) \<longrightarrow>
               clock_of s' i ! i = clock_of s i ! i + 1
                 + (int (length (node_received (sys_nodes s' ! i)))
                    - int (length (node_received (sys_nodes s ! i)))))
         \<and> (\<forall>ev evs. sched' = [i] \<and> node_pc (sys_nodes s ! i) = Ready
               \<and> node_events (sys_nodes s ! i) = ev # evs
               \<and> (ev_type ev = ''i'' \<or> ev_type ev = ''s''
                  \<or> (ev_type ev = ''r'' \<and> buffered (sys_nodes s ! i) (ev_dependency ev)))
               \<and> node_pc (sys_nodes s' ! i) = Ready \<longrightarrow>
               node_events (sys_nodes s' ! i) = evs
               \<and> node_received (sys_nodes s' ! i) = node_received (sys_nodes s ! i)
               \<and> clock_of s' i ! i = clock_of s i ! i + 1)"
proof -
  from invariants_run [OF assms(1)] have inv: "shape n s \<and> own_max n s \<and> counted n fr s \<and> dominated n s" .
  from invariants_exec [OF inv assms(2)] have inv': "shape n s' \<and> own_max n s' \<and> counted n fr s' \<and> dominated n s'" .
  have mono: "clock_of s i ! i \<le> clock_of s' i ! i"
    using clock_mono_exec [of n s sched' s' i] inv inv' assms(2,3)
    by (simp add: shape_clock_of [of n])
  have cnt: "clock_of s' i ! i + int (length (node_events (sys_nodes s' ! i)))
            + int (length (node_received (sys_nodes s ! i)))
         = clock_of s i ! i + int (length (node_events (sys_nodes s ! i)))
            + int (length (node_received (sys_nodes s' ! i)))"
    using inv inv' assms(3) by (intro own_slot_counted [where n = n and fr = fr]) simp_all
  have one: "clock_of s' i ! i = clock_of s i ! i + 1
                 + (int (length (node_received (sys_nodes s' ! i)))
                    - int (length (node_received (sys_nodes s ! i))))"
    if "node_events (sys_nodes s ! i) = ev # node_events (sys_nodes s' ! i)" for ev
    using cnt that by simp
  have loc: "node_events (sys_nodes s' ! i) = evs
               \<and> node_received (sys_nodes s' ! i) = node_received (sys_nodes s ! i)
               \<and> clock_of s' i ! i = clock_of s i ! i + 1"
    if "sched' = [i]" "node_pc (sys_nodes s ! i) = Ready" "node_events (sys_nodes s ! i) = ev # evs"
      "ev_type ev = ''i'' \<or> ev_type ev = ''s''
         \<or> (ev_type ev = ''r'' \<and> buffered (sys_nodes s ! i) (ev_dependency ev))"
      "node_pc (sys_nodes s' ! i) = Ready" for ev evs
  proof -
    from assms(2) that(1) have step: "sys_step i s = Some s'"
      by (simp split: option.splits)
    from inv have "shape n s" by simp
    from local_step_effect [OF this step that(2-5)]
    have e: "node_events (sys_nodes s' ! i) = evs"
      and r: "node_received (sys_nodes s' ! i) = node_received (sys_nodes s ! i)"
      by simp_all
    with cnt that(3) show ?thesis by simp
  qed
  have p2: "clock_of s' i ! i - clock_of s i ! i
             = (int (length (node_events (sys_nodes s ! i)))
                  - int (length (node_events (sys_nodes s' ! i))))
               + (int (length (node_received (sys_nodes s' ! i)))
                  - int (length (node_received (sys_nodes s ! i))))"
    using cnt by simp
  have p3: "\<forall>ev. node_events (sys_nodes s ! i) = ev # node_events (sys_nodes s' ! i) \<longrightarrow>
               clock_of s' i ! i = clock_of s i ! i + 1
                 + (int (length (node_received (sys_nodes s' ! i)))
                    - int (length (node_received (sys_nodes s ! i))))"
    using one by blast
  have p4: "\<forall>ev evs. sched' = [i] \<and> node_pc (sys_nodes s ! i) = Ready
               \<and> node_events (sys_nodes s ! i) = ev # evs
               \<and> (ev_type ev = ''i'' \<or> ev_type ev = ''s''
                  \<or> (ev_type ev = ''r'' \<and> buffered (sys_nodes s ! i) (ev_dependency ev)))
               \<and> node_pc (sys_nodes s' ! i) = Ready \<longrightarrow>
               node_events (sys_nodes s' ! i) = evs
               \<and> node_received (sys_nodes s' ! i) = node_received (sys_nodes s ! i)
               \<and> clock_of s' i ! i = clock_of s i ! i + 1"
    using loc by blast
  show ?thesis
    by (rule conjI [OF mono conjI [OF p2 conjI [OF p3 p4]]])
qed


theorem own_slot_growth_witness:
  "exec [] (main 2 script_two_nodes) = Some (main 2 script_two_nodes)
   \<and> exec [0] (main 2 script_two_nodes) = Some (the (exec [0] (main 2 script_two_nodes)))
   \<and> node_pc (sys_nodes (main 2 script_two_nodes) ! 0) = Ready
   \<and> node_events (sys_nodes (main 2 script_two_nodes) ! 0) = [Send 1 1]
   \<and> ev_type (Send 1 1) = ''s''
   \<and> node_pc (sys_nodes (the (exec [0] (main 2 script_two_nodes))) ! 0) = Ready
   \<and> clock_of (main 2 script_two_nodes) 0 ! 0 = 0
   \<and> clock_of (main 2 script_two_nodes) 0 ! 0 \<le> clock_of (the (exec [0] (main 2 script_two_nodes))) 0 ! 0
   \<and> clock_of (the (exec [0] (main 2 script_two_nodes))) 0 ! 0
       = clock_of (main 2 script_two_nodes) 0 ! 0 + 1"
proof -
  let ?M = "main 2 script_two_nodes"
  let ?S = "the (exec [0] ?M)"
  have e0: "exec [] ?M = Some ?M" by simp
  have e1: "exec [0] ?M = Some ?S" by code_simp
  have i: "(0::nat) < 2" by simp
  have h: "node_pc (sys_nodes ?M ! 0) = Ready" "node_events (sys_nodes ?M ! 0) = [Send 1 1]"
    "ev_type (Send 1 1) = ''s''" "node_pc (sys_nodes ?S ! 0) = Ready"
    "clock_of ?M 0 ! 0 = 0"
    by code_simp+
  note inst = own_slot_growth [OF e0 e1 i]
  from inst have mono: "clock_of ?M 0 ! 0 \<le> clock_of ?S 0 ! 0"
    by blast
  from inst have "[0] = [0::nat] \<and> node_pc (sys_nodes ?M ! 0) = Ready
               \<and> node_events (sys_nodes ?M ! 0) = Send 1 1 # []
               \<and> (ev_type (Send 1 1) = ''i'' \<or> ev_type (Send 1 1) = ''s''
                  \<or> (ev_type (Send 1 1) = ''r'' \<and> buffered (sys_nodes ?M ! 0) (ev_dependency (Send 1 1))))
               \<and> node_pc (sys_nodes ?S ! 0) = Ready \<longrightarrow>
               node_events (sys_nodes ?S ! 0) = []
               \<and> node_received (sys_nodes ?S ! 0) = node_received (sys_nodes ?M ! 0)
               \<and> clock_of ?S 0 ! 0 = clock_of ?M 0 ! 0 + 1"
    by blast
  with h have "clock_of ?S 0 ! 0 = clock_of ?M 0 ! 0 + 1"
    by simp
  with e0 e1 h mono show ?thesis
    by simp
qed

section \<open>Causal dominance\<close>

lemma exec_append:
  "exec (a @ b) s = (case exec a s of None \<Rightarrow> None | Some t \<Rightarrow> exec b t)"
  by (induction a arbitrary: s) (simp_all split: option.splits)

text \<open>
  Claim C6. Take any state of a run and a step in which a node finishes a receive event
  with dependency \<open>d\<close>. Then the node has dequeued a message with event id \<open>d\<close> (in this
  step, or earlier when the id went to the buffer), and its clock is, in every slot, at
  least the clock carried by every message it has dequeued, the messages with id \<open>d\<close>
  among them. The clock carried by a message is the copy made at its send event: the
  lists at the addresses of the copies are in the state \<open>s'\<close> after the receive what
  they were in any earlier state \<open>s0\<close> of the run that had them.
\<close>

theorem receive_dominates_snapshot:
  assumes "exec sched (main n fr) = Some s0" and "exec sched' s0 = Some s"
    and "sys_step i s = Some s'"
    and "node_events (sys_nodes s ! i) = ev # evs" and "ev_type ev = ''r''"
    and "ev_dependency ev = Some d"
    and "node_events (sys_nodes s' ! i) = evs"
  shows "(\<exists>m\<in>set (node_received (sys_nodes s' ! i)). msg_event_id m = d)
         \<and> (\<forall>m\<in>set (node_received (sys_nodes s' ! i)).
               \<forall>k<n. sys_store s' ! vc_clock (msg_clock m) ! k \<le> clock_of s' i ! k)
         \<and> (\<forall>c. n \<le> c \<and> c < length (sys_store s0) \<longrightarrow> sys_store s' ! c = sys_store s0 ! c)"
proof -
  note inv0 = invariants_run [OF assms(1)]
  note inv = invariants_exec [OF inv0 assms(2)]
  from inv have sh: "shape n s" and dom: "dominated n s"
    by simp_all
  from invariants_step [OF inv assms(3)]
  have sh': "shape n s'" and dom': "dominated n s'"
    by simp_all
  have "exec (sched' @ [i]) s0 = Some s'"
    using assms(2,3) by (simp add: exec_append)
  with inv0 have keep: "\<forall>c. n \<le> c \<and> c < length (sys_store s0) \<longrightarrow> sys_store s' ! c = sys_store s0 ! c"
    using snapshots_immutable [of n s0 "sched' @ [i]" s'] by blast
  have n: "length (sys_nodes s) = n" using sh by (simp add: shape_def)
  from sys_step_frame [OF sh assms(3)] have i: "i < n" by simp
  have buf: "set (node_buffer (sys_nodes s ! i)) \<subseteq> msg_event_id ` set (node_received (sys_nodes s ! i))"
    using dom i unfolding dominated_def by blast
  have ex: "\<exists>m\<in>set (node_received (sys_nodes s' ! i)). msg_event_id m = d"
    using sh assms(3)
  proof (cases rule: sys_step_effect)
    case (stop e out)
    with assms(4,7) i n show ?thesis by simp
  next
    case (event ev' evs' out)
    with assms(4-6) have "d \<in> set (node_buffer (sys_nodes s ! i))"
      by (simp add: buffered_def)
    with buf have "d \<in> msg_event_id ` set (node_received (sys_nodes s ! i))"
      by blast
    moreover have "node_received (sys_nodes s' ! i) = node_received (sys_nodes s ! i)"
      unfolding event(5) using i n by simp
    ultimately show ?thesis by auto
  next
    case (send ev' evs' r k out)
    with assms(4,5) show ?thesis by simp
  next
    case (other ev' evs' msg rest)
    with assms(4,7) i n show ?thesis by simp
  next
    case (match ev' evs' msg rest out)
    have "node_received (sys_nodes s' ! i) = node_received (sys_nodes s ! i) @ [msg]"
      unfolding match(6) using i n by simp
    moreover have "msg_event_id msg = d"
      using match(3,5) assms(4,6) by simp
    ultimately show ?thesis by simp
  qed
  have "\<forall>m\<in>set (node_received (sys_nodes s' ! i)).
               \<forall>k<n. sys_store s' ! vc_clock (msg_clock m) ! k \<le> clock_of s' i ! k"
    using dom' i sh' unfolding dominated_def by (simp add: shape_clock_of [of n])
  with ex keep show ?thesis by blast
qed

theorem receive_dominates_snapshot_witness:
  "exec [0] (main 2 script_two_nodes) = Some (the (exec [0] (main 2 script_two_nodes)))
   \<and> exec [] (the (exec [0] (main 2 script_two_nodes))) = Some (the (exec [0] (main 2 script_two_nodes)))
   \<and> sys_step 1 (the (exec [0] (main 2 script_two_nodes)))
       = Some (the (exec [0, 1] (main 2 script_two_nodes)))
   \<and> node_events (sys_nodes (the (exec [0] (main 2 script_two_nodes))) ! 1) = [Receive 2 1]
   \<and> ev_type (Receive 2 1) = ''r'' \<and> ev_dependency (Receive 2 1) = Some 1
   \<and> node_events (sys_nodes (the (exec [0, 1] (main 2 script_two_nodes))) ! 1) = []
   \<and> node_received (sys_nodes (the (exec [0, 1] (main 2 script_two_nodes))) ! 1)
       = [\<lparr>msg_event_id = 1, msg_clock = \<lparr>vc_clock = 2, vc_id = None\<rparr>\<rparr>]
   \<and> sys_store (the (exec [0, 1] (main 2 script_two_nodes))) ! 2 ! 0
       \<le> clock_of (the (exec [0, 1] (main 2 script_two_nodes))) 1 ! 0
   \<and> sys_store (the (exec [0, 1] (main 2 script_two_nodes))) ! 2 ! 1
       \<le> clock_of (the (exec [0, 1] (main 2 script_two_nodes))) 1 ! 1
   \<and> length (sys_store (the (exec [0] (main 2 script_two_nodes)))) = 3
   \<and> sys_store (the (exec [0, 1] (main 2 script_two_nodes))) ! 2
       = sys_store (the (exec [0] (main 2 script_two_nodes))) ! 2"
proof -
  let ?S = "the (exec [0] (main 2 script_two_nodes))"
  let ?S' = "the (exec [0, 1] (main 2 script_two_nodes))"
  have run: "exec [0] (main 2 script_two_nodes) = Some ?S"
    and step: "sys_step 1 ?S = Some ?S'"
    by code_simp+
  have h: "node_events (sys_nodes ?S ! 1) = Receive 2 1 # []" "ev_type (Receive 2 1) = ''r''"
    "ev_dependency (Receive 2 1) = Some 1" "node_events (sys_nodes ?S' ! 1) = []"
    by code_simp+
  have r: "node_received (sys_nodes ?S' ! 1)
       = [\<lparr>msg_event_id = 1, msg_clock = \<lparr>vc_clock = 2, vc_id = None\<rparr>\<rparr>]"
    by code_simp
  have nil: "exec [] ?S = Some ?S" by simp
  have len: "length (sys_store ?S) = 3" by code_simp
  note inst = receive_dominates_snapshot [OF run nil step h]
  from inst have "\<forall>c. 2 \<le> c \<and> c < length (sys_store ?S) \<longrightarrow> sys_store ?S' ! c = sys_store ?S ! c"
    by blast
  with len have keep: "sys_store ?S' ! 2 = sys_store ?S ! 2"
    by simp
  from inst
  have "\<forall>m\<in>set (node_received (sys_nodes ?S' ! 1)).
               \<forall>k<2. sys_store ?S' ! vc_clock (msg_clock m) ! k \<le> clock_of ?S' 1 ! k"
    by blast
  then have "\<forall>k<2. sys_store ?S' ! 2 ! k \<le> clock_of ?S' 1 ! k"
    unfolding r by simp
  then have "sys_store ?S' ! 2 ! 0 \<le> clock_of ?S' 1 ! 0" "sys_store ?S' ! 2 ! 1 \<le> clock_of ?S' 1 ! 1"
    by simp_all
  with run step h r len keep show ?thesis by simp
qed

section \<open>Events of an unknown type\<close>

subsection \<open>What the reader lets through\<close>





subsection \<open>Runs of the program\<close>









subsection \<open>The branch for an unknown type\<close>









end
